theory Spec2Isabelle
  imports Main "HOL-Library.Word"
begin

section \<open>The CSR sparse-matrix class of \<open>src/main/cpp/CSR.hpp\<close>\<close>

text \<open>
  The class template \<open>CSR<SpMVInd, SpMVVal>\<close> is embedded with its two type parameters
  kept as parameters: \<open>SpMVInd\<close> is an unsigned integer type of \<open>LENGTH('i)\<close> bits and
  \<open>SpMVVal\<close> an unsigned integer type of \<open>LENGTH('v)\<close> bits. \<open>unsigned int\<close> is the
  32-bit word type, \<open>int\<close> its two's-complement reading (\<open>sint\<close>).

  Where an \<open>SpMVInd\<close> meets an \<open>unsigned int\<close> in one expression, C++ converts both to
  the wider of the two types first, so a comparison compares the two numbers (\<open>unat\<close>),
  and a sum, difference or product that is stored into a field of \<open>w\<close> bits is the exact
  result reduced modulo \<open>2 ^ w\<close>.
\<close>

type_synonym uint = "32 word"

subsection \<open>Outcomes of a call\<close>

text \<open>
  A call returns a value, throws one of the string literals of the source, or has
  undefined behaviour (an access outside an array, a null pointer read, a division by
  zero, a signed overflow). A call that never returns is the value \<open>None\<close> of the
  functions defined with \<^theory_text>\<open>partial_function\<close> below.
\<close>

datatype 'a outcome = Ok 'a | Throw string | Undefined

subsection \<open>Data\<close>

record SparseMatrixMetadata =
  rows :: uint
  cols :: uint
  nz :: uint
  startingRow :: uint
  startingCol :: uint
  bytesPerInd :: uint
  bytesPerVal :: uint

text \<open>
  The record is polymorphic in the element types; the class is the instance
  \<open>('i word, 'v word) CSR\<close>. The three array members are pointers. No operation of the
  class writes through them once a matrix is returned, so a pointer is modelled by the
  sequence of elements that can be read from it: for a pointer to the start of an
  allocation the whole allocation, for a pointer \<open>&a[k]\<close> into one the elements from
  offset \<open>k\<close> to its end.
\<close>

record ('i, 'v) CSR =
  m_needsDealloc :: bool
  m_metadata :: SparseMatrixMetadata
  m_indPtrs :: "'i list"
  m_inds :: "'i list"
  m_nzData :: "'v list"
  m_name :: string

text \<open>\<open>new T[n]\<close>: \<open>n\<close> elements. Their content is indeterminate in C++; \<open>load\<close>, \<open>eye\<close> and
  \<open>dense\<close> overwrite every one of them before they return (the closed forms of their loops
  below hold for any content of the arrays they start from).\<close>

definition new_array :: "nat \<Rightarrow> 'a::len word list" where
  "new_array n = replicate n 0"

text \<open>\<open>&a[k]\<close>: the elements from offset \<open>k\<close> on; forming the address is defined up to
  one past the end.\<close>

definition addr_of :: "'a list \<Rightarrow> nat \<Rightarrow> 'a list" where
  "addr_of a k = drop k a"

definition isSquare :: "('i, 'v) CSR \<Rightarrow> bool" where
  "isSquare m = (cols (m_metadata m) = rows (m_metadata m))"

definition getCols :: "('i, 'v) CSR \<Rightarrow> uint" where
  "getCols m = cols (m_metadata m)"

definition getRows :: "('i, 'v) CSR \<Rightarrow> uint" where
  "getRows m = rows (m_metadata m)"

definition getNNZ :: "('i, 'v) CSR \<Rightarrow> uint" where
  "getNNZ m = nz (m_metadata m)"

definition getStartingRow :: "('i, 'v) CSR \<Rightarrow> uint" where
  "getStartingRow m = startingRow (m_metadata m)"

subsection \<open>\<open>load\<close>\<close>

text \<open>
  \<open>readMatrixData\<close> is declared \<open>extern\<close>: it is a parameter of \<open>load\<close>. It returns a
  pointer to a buffer, or the null pointer (\<open>None\<close>); \<open>load\<close> casts the pointer to the
  type it expects, which is undefined when the buffer is of another kind.
\<close>

datatype ('i, 'v) buffer =
  MetaBuf SparseMatrixMetadata
| IndBuf "'i list"
| ValBuf "'v list"

type_synonym ('i, 'v) store = "string \<Rightarrow> string \<Rightarrow> ('i, 'v) buffer option"

text \<open>
  The loop \<open>for(SpMVInd i = 0; i < nnz; i++) m_nzData[i] = (SpMVVal) (i + 1)\<close>. Inside the
  loop \<open>i\<close> is below \<open>nnz\<close>, so \<open>i + 1\<close> is the number \<open>unat i + 1\<close> whether or not
  \<open>i\<close> is promoted to \<open>int\<close> first; the cast reduces it modulo \<open>2 ^ LENGTH('v)\<close>.
\<close>

function genNZData_loop :: "'a::len word \<Rightarrow> 'a word \<Rightarrow> 'v::len word list \<Rightarrow> 'v word list outcome" where
  "genNZData_loop nnz i a =
     (if i < nnz then
        (if unat i < length a
         then genNZData_loop nnz (i + 1) (a[unat i := of_nat (unat i + 1)])
         else Undefined)
      else Ok a)"
  by pat_completeness auto
termination
proof (relation "measure (\<lambda>(nnz, i, a). unat nnz - unat i)", goal_cases)
  case 1
  show ?case by simp
next
  case (2 nnz i a)
  have lt: "unat i < unat nnz"
    using \<open>i < nnz\<close> by (simp add: word_less_nat_alt)
  have "unat nnz < 2 ^ LENGTH('a)"
    by (rule unsigned_less)
  with lt have "unat i + unat (1 :: 'a word) < 2 ^ LENGTH('a)"
    unfolding unat_1 by linarith
  then have "unat (i + 1) = unat i + 1"
    by (simp add: unat_add_lem [THEN iffD1])
  with lt show ?case
    by simp
qed

definition load :: "('i::len word, 'v::len word) store \<Rightarrow> string \<Rightarrow> bool \<Rightarrow> ('i word, 'v word) CSR outcome" where
  "load readMatrixData name genNZData =
     (case readMatrixData name ''meta'' of
        None \<Rightarrow> Undefined
      | Some (MetaBuf md) \<Rightarrow>
          if unat (bytesPerInd md) \<noteq> LENGTH('i) div 8
          then Throw ''bytesPerInd mismatch in CSR::load''
          else if unat (bytesPerVal md) \<noteq> LENGTH('v) div 8 \<and> \<not> genNZData
          then Throw ''bytesPerVal mismatch in CSR::load -- consider using genNZData''
          else
            (case readMatrixData name ''indptr'' of
               None \<Rightarrow> Throw ''could not load indptr in CSR::load''
             | Some (IndBuf indPtrs) \<Rightarrow>
                 (case readMatrixData name ''inds'' of
                    None \<Rightarrow> Throw ''could not load inds in CSR::load''
                  | Some (IndBuf inds) \<Rightarrow>
                      if genNZData then
                        (let nnz = (ucast (nz md) :: 'i word) in
                         case genNZData_loop nnz 0 (new_array (unat nnz)) of
                           Ok nzData \<Rightarrow>
                             Ok \<lparr>m_needsDealloc = True, m_metadata = md, m_indPtrs = indPtrs,
                                 m_inds = inds, m_nzData = nzData, m_name = name\<rparr>
                         | Throw e \<Rightarrow> Throw e
                         | Undefined \<Rightarrow> Undefined)
                      else
                        (case readMatrixData name ''nzdata'' of
                           None \<Rightarrow> Throw ''could not load nzdata in CSR::load''
                         | Some (ValBuf nzData) \<Rightarrow>
                             Ok \<lparr>m_needsDealloc = True, m_metadata = md, m_indPtrs = indPtrs,
                                 m_inds = inds, m_nzData = nzData, m_name = name\<rparr>
                         | Some _ \<Rightarrow> Undefined)
                  | Some _ \<Rightarrow> Undefined)
             | Some _ \<Rightarrow> Undefined)
      | Some _ \<Rightarrow> Undefined)"

subsection \<open>\<open>eye\<close>\<close>

text \<open>
  \<open>new SparseMatrixMetadata\<close> returns a struct whose seven fields are indeterminate: the
  content \<open>md0\<close> of the fresh struct is a parameter of the constructors. The loop counter
  is an \<open>SpMVInd\<close> compared with the \<open>unsigned int\<close> \<open>dim\<close>; \<open>i++\<close> wraps around in
  \<open>SpMVInd\<close>, so the loop need not end.
\<close>

partial_function (option) eye_loop ::
  "uint \<Rightarrow> 'i::len word \<Rightarrow> ('i word, 'v::len word) CSR \<Rightarrow> ('i word, 'v word) CSR outcome option" where
  "eye_loop dim i ret =
     (if unat i < unat dim then
        (if unat i < length (m_indPtrs ret) \<and> unat i < length (m_inds ret)
            \<and> unat i < length (m_nzData ret)
         then eye_loop dim (i + 1)
                (ret\<lparr>m_indPtrs := (m_indPtrs ret)[unat i := i],
                     m_inds := (m_inds ret)[unat i := i],
                     m_nzData := (m_nzData ret)[unat i := 1]\<rparr>)
         else Some Undefined)
      else Some (Ok ret))"

definition eye :: "SparseMatrixMetadata \<Rightarrow> uint \<Rightarrow> ('i::len word, 'v::len word) CSR outcome option" where
  "eye md0 dim =
     (case eye_loop dim 0
             \<lparr>m_needsDealloc = False,
              m_metadata = md0\<lparr>startingRow := 0, startingCol := 0, cols := dim, rows := dim,
                              nz := dim\<rparr>,
              m_indPtrs = new_array (unat (dim + 1)),
              m_inds = new_array (unat dim),
              m_nzData = new_array (unat dim),
              m_name = ''<not initialized>''\<rparr> of
        None \<Rightarrow> None
      | Some (Ok ret) \<Rightarrow>
          if unat dim < length (m_indPtrs ret)
          then Some (Ok (ret\<lparr>m_indPtrs := (m_indPtrs ret)[unat dim := ucast dim],
                                m_name := ''eye'', m_needsDealloc := True\<rparr>))
          else Some Undefined
      | Some (Throw e) \<Rightarrow> Some (Throw e)
      | Some Undefined \<Rightarrow> Some Undefined)"

subsection \<open>\<open>dense\<close>\<close>

text \<open>
  \<open>dim*dim\<close> is a product of two \<open>unsigned int\<close>: it wraps around at \<open>2 ^ 32\<close>, in the
  \<open>nz\<close> field, in the two array sizes, in \<open>m_indPtrs[dim]\<close> and in the bound of the second
  loop. \<open>i*dim\<close> and \<open>i % dim\<close> have an \<open>SpMVInd\<close> operand and are stored into an
  \<open>SpMVInd\<close>.
\<close>

partial_function (option) dense_loop1 ::
  "uint \<Rightarrow> 'i::len word \<Rightarrow> 'i word list \<Rightarrow> 'i word list outcome option" where
  "dense_loop1 dim i indPtrs =
     (if unat i < unat dim then
        (if unat i < length indPtrs
         then dense_loop1 dim (i + 1) (indPtrs[unat i := of_nat (unat i * unat dim)])
         else Some Undefined)
      else Some (Ok indPtrs))"

partial_function (option) dense_loop2 ::
  "uint \<Rightarrow> 'i::len word \<Rightarrow> 'i word list \<times> 'v::len word list
     \<Rightarrow> ('i word list \<times> 'v word list) outcome option" where
  "dense_loop2 dim i arrays =
     (if unat i < unat (dim * dim) then
        (if dim \<noteq> 0 \<and> unat i < length (fst arrays) \<and> unat i < length (snd arrays)
         then dense_loop2 dim (i + 1)
                ((fst arrays)[unat i := of_nat (unat i mod unat dim)],
                 (snd arrays)[unat i := of_nat (unat i + 1)])
         else Some Undefined)
      else Some (Ok arrays))"

definition dense :: "SparseMatrixMetadata \<Rightarrow> uint \<Rightarrow> ('i::len word, 'v::len word) CSR outcome option" where
  "dense md0 dim =
     (case dense_loop1 dim 0 (new_array (unat (dim + 1))) of
        None \<Rightarrow> None
      | Some (Ok indPtrs) \<Rightarrow>
          if unat dim < length indPtrs then
            (case dense_loop2 dim 0 (new_array (unat (dim * dim)), new_array (unat (dim * dim))) of
               None \<Rightarrow> None
             | Some (Ok (inds, nzData)) \<Rightarrow>
                 Some (Ok \<lparr>m_needsDealloc = True,
                           m_metadata = md0\<lparr>startingRow := 0, startingCol := 0, cols := dim,
                                           rows := dim, nz := dim * dim\<rparr>,
                           m_indPtrs = indPtrs[unat dim := ucast (dim * dim)],
                           m_inds = inds, m_nzData = nzData, m_name = ''dense''\<rparr>)
             | Some (Throw e) \<Rightarrow> Some (Throw e)
             | Some Undefined \<Rightarrow> Some Undefined)
          else Some Undefined
      | Some (Throw e) \<Rightarrow> Some (Throw e)
      | Some Undefined \<Rightarrow> Some Undefined)"

subsection \<open>\<open>calcRowPartitionBoundaries\<close>\<close>

text \<open>All of it is \<open>unsigned int\<close> arithmetic; \<open>push_back\<close> converts to \<open>SpMVInd\<close>.\<close>

function calcRowPartitionBoundaries_loop ::
  "uint \<Rightarrow> uint \<Rightarrow> uint \<Rightarrow> 'i::len word list \<Rightarrow> 'i word list" where
  "calcRowPartitionBoundaries_loop divSize numPartitions i boundaries =
     (if i < numPartitions
      then calcRowPartitionBoundaries_loop divSize numPartitions (i + 1)
             (boundaries @ [ucast (divSize * i)])
      else boundaries)"
  by pat_completeness auto
termination
proof (relation "measure (\<lambda>(divSize, numPartitions, i, boundaries). unat numPartitions - unat i)",
    goal_cases)
  case 1
  show ?case by simp
next
  case (2 divSize numPartitions i boundaries)
  have lt: "unat i < unat numPartitions"
    using \<open>i < numPartitions\<close> by (simp add: word_less_nat_alt)
  have "unat numPartitions < 2 ^ LENGTH(32)"
    by (rule unsigned_less)
  with lt have "unat i + unat (1 :: uint) < 2 ^ LENGTH(32)"
    unfolding unat_1 by linarith
  then have "unat (i + 1) = unat i + 1"
    by (simp add: unat_add_lem [THEN iffD1])
  with lt show ?case
    by simp
qed

definition calcRowPartitionBoundaries :: "('i::len word, 'v) CSR \<Rightarrow> uint \<Rightarrow> 'i word list outcome" where
  "calcRowPartitionBoundaries m numPartitions =
     (if numPartitions = 0 then Undefined
      else Ok (calcRowPartitionBoundaries_loop
                 ((rows (m_metadata m) + numPartitions) div numPartitions) numPartitions 0 []
               @ [ucast (rows (m_metadata m))]))"

subsection \<open>\<open>itoa\<close> and \<open>reverse\<close>\<close>

text \<open>
  \<open>int\<close> values are the integers from \<open>- (2 ^ 31)\<close> to \<open>2 ^ 31 - 1\<close>. The buffer \<open>s\<close> is the
  list of the characters written so far, without the final NUL; the caller's buffer has
  256 characters, more than the twelve that \<open>itoa\<close> can write. On the numbers from
  0 on, the \<open>/\<close> and \<open>%\<close> of C++ are \<open>div\<close> and \<open>mod\<close>.
\<close>

function itoa_loop :: "int \<Rightarrow> string \<Rightarrow> string" where
  "itoa_loop n s =
     (if n div 10 > 0 then itoa_loop (n div 10) (s @ [char_of (n mod 10 + 48)])
      else s @ [char_of (n mod 10 + 48)])"
  by pat_completeness auto
termination
  by (relation "measure (\<lambda>(n, s). nat n)") auto

function reverse_loop :: "int \<Rightarrow> int \<Rightarrow> string \<Rightarrow> string" where
  "reverse_loop i j s =
     (if i < j then reverse_loop (i + 1) (j - 1) (s[nat i := s ! nat j, nat j := s ! nat i])
      else s)"
  by pat_completeness auto
termination
  by (relation "measure (\<lambda>(i, j, s). nat (j - i))") auto

definition reverse :: "string \<Rightarrow> string" where
  "reverse s = reverse_loop 0 (int (length s) - 1) s"

definition itoa :: "int \<Rightarrow> string outcome" where
  "itoa n =
     (if n = - (2 ^ 31) then Undefined
      else Ok (reverse (if n < 0 then itoa_loop (- n) [] @ ''-'' else itoa_loop n [])))"

subsection \<open>\<open>rowPartitionedView\<close>\<close>

text \<open>
  One turn of the loop builds the child \<open>res[i]\<close>. Every read of \<open>boundaries\<close> and of
  \<open>m_indPtrs\<close> must be inside the array. The differences that give \<open>rows\<close> and \<open>nz\<close> are
  stored into \<open>unsigned int\<close> fields; \<open>itoa\<close> receives \<open>i\<close> converted to \<open>int\<close>.
\<close>

definition partition_child ::
  "('i::len word, 'v::len word) CSR \<Rightarrow> 'i word list \<Rightarrow> uint \<Rightarrow> ('i word, 'v word) CSR outcome" where
  "partition_child parent boundaries i =
     (if unat (i + 1) < length boundaries \<and> unat i < length boundaries then
        (let lo = boundaries ! unat i; hi = boundaries ! unat (i + 1) in
         if unat hi < length (m_indPtrs parent) \<and> unat lo < length (m_indPtrs parent) then
           (let off = m_indPtrs parent ! unat lo in
            if unat off \<le> length (m_inds parent) \<and> unat off \<le> length (m_nzData parent) then
              (case itoa (sint i) of
                 Ok partName \<Rightarrow>
                   Ok \<lparr>m_needsDealloc = False,
                       m_metadata =
                         \<lparr>rows = ucast hi - ucast lo,
                          cols = cols (m_metadata parent),
                          nz = ucast (m_indPtrs parent ! unat hi) - ucast off,
                          startingRow = ucast lo,
                          startingCol = 0,
                          bytesPerInd = bytesPerInd (m_metadata parent),
                          bytesPerVal = bytesPerVal (m_metadata parent)\<rparr>,
                       m_indPtrs = addr_of (m_indPtrs parent) (unat lo),
                       m_inds = addr_of (m_inds parent) (unat off),
                       m_nzData = addr_of (m_nzData parent) (unat off),
                       m_name = m_name parent @ ''-p'' @ partName\<rparr>
               | Throw e \<Rightarrow> Throw e
               | Undefined \<Rightarrow> Undefined)
            else Undefined)
         else Undefined)
      else Undefined)"

function rowPartitionedView_loop ::
  "('i::len word, 'v::len word) CSR \<Rightarrow> 'i word list \<Rightarrow> uint \<Rightarrow> uint
     \<Rightarrow> ('i word, 'v word) CSR list \<Rightarrow> ('i word, 'v word) CSR list outcome" where
  "rowPartitionedView_loop parent boundaries numPartitions i res =
     (if i < numPartitions then
        (case partition_child parent boundaries i of
           Ok child \<Rightarrow>
             rowPartitionedView_loop parent boundaries numPartitions (i + 1) (res @ [child])
         | Throw e \<Rightarrow> Throw e
         | Undefined \<Rightarrow> Undefined)
      else Ok res)"
  by pat_completeness auto
termination
proof (relation "measure (\<lambda>(parent, boundaries, numPartitions, i, res).
    unat numPartitions - unat i)", goal_cases)
  case 1
  show ?case by simp
next
  case (2 parent boundaries numPartitions i res child)
  have lt: "unat i < unat numPartitions"
    using \<open>i < numPartitions\<close> by (simp add: word_less_nat_alt)
  have "unat numPartitions < 2 ^ LENGTH(32)"
    by (rule unsigned_less)
  with lt have "unat i + unat (1 :: uint) < 2 ^ LENGTH(32)"
    unfolding unat_1 by linarith
  then have "unat (i + 1) = unat i + 1"
    by (simp add: unat_add_lem [THEN iffD1])
  with lt show ?case
    by simp
qed

text \<open>\<open>boundaries.size() - 1\<close> is computed in \<open>size_t\<close> and converted to \<open>unsigned int\<close>.\<close>

definition rowPartitionedView ::
  "('i::len word, 'v::len word) CSR \<Rightarrow> 'i word list \<Rightarrow> ('i word, 'v word) CSR list outcome" where
  "rowPartitionedView parent boundaries =
     rowPartitionedView_loop parent boundaries (of_nat (length boundaries) - 1) 0 []"

subsection \<open>Notions used to state the properties\<close>

text \<open>The matrix a constructor returns, if it returns one.\<close>

definition returned :: "'a outcome option \<Rightarrow> 'a option" where
  "returned r = (case r of Some (Ok x) \<Rightarrow> Some x | _ \<Rightarrow> None)"

text \<open>The children a call of \<open>rowPartitionedView\<close> returns, none if it returns none.\<close>

definition children_of :: "'a list outcome \<Rightarrow> 'a list" where
  "children_of r = (case r of Ok children \<Rightarrow> children | _ \<Rightarrow> [])"

text \<open>
  The entries of row \<open>r\<close> of a matrix that owns its arrays: the column indices and the
  values at the offsets from \<open>indPtrs[r]\<close> up to \<open>indPtrs[r+1]\<close>.
\<close>

definition row_entries :: "('i::len word, 'v) CSR \<Rightarrow> nat \<Rightarrow> ('i word \<times> 'v) list" where
  "row_entries m r =
     (let lo = unat (m_indPtrs m ! r); hi = unat (m_indPtrs m ! Suc r)
      in zip (take (hi - lo) (drop lo (m_inds m))) (take (hi - lo) (drop lo (m_nzData m))))"

text \<open>
  The invariants of section 3 of the specification, with \<open>indPtrs[rows]\<close> as the upper bound
  of the index pointers and \<open>nz = indPtrs[rows] - indPtrs[0]\<close>. An array member is a pointer,
  so ``has \<open>rows + 1\<close> entries'' says that \<open>rows + 1\<close> entries can be read from it, and the
  stored column indices are the first \<open>nz\<close> entries of \<open>inds\<close>. \<open>owns_arrays\<close> says that the
  three arrays have exactly these sizes, as the arrays that a constructor allocates have.
\<close>

definition csr_index_inv :: "SparseMatrixMetadata \<Rightarrow> 'i::len word list \<Rightarrow> 'i word list \<Rightarrow> bool" where
  "csr_index_inv md indPtrs inds =
     (unat (rows md) + 1 \<le> length indPtrs
      \<and> unat (nz md) \<le> length inds
      \<and> (\<forall>r < unat (rows md).
            indPtrs ! r \<le> indPtrs ! (r + 1) \<and> indPtrs ! (r + 1) \<le> indPtrs ! unat (rows md))
      \<and> (\<forall>k < unat (nz md). unat (inds ! k) < unat (cols md))
      \<and> unat (nz md) = unat (indPtrs ! unat (rows md)) - unat (indPtrs ! 0))"

definition csr_inv :: "('i::len word, 'v) CSR \<Rightarrow> bool" where
  "csr_inv m =
     (csr_index_inv (m_metadata m) (m_indPtrs m) (m_inds m)
      \<and> unat (nz (m_metadata m)) \<le> length (m_nzData m))"

definition owns_arrays :: "('i, 'v) CSR \<Rightarrow> bool" where
  "owns_arrays m =
     (length (m_indPtrs m) = unat (rows (m_metadata m)) + 1
      \<and> length (m_inds m) = unat (nz (m_metadata m))
      \<and> length (m_nzData m) = unat (nz (m_metadata m)))"

text \<open>What a fetched buffer holds, when it is of the kind asked for.\<close>

definition meta_of :: "('i, 'v) buffer option \<Rightarrow> SparseMatrixMetadata option" where
  "meta_of b = (case b of Some (MetaBuf md) \<Rightarrow> Some md | _ \<Rightarrow> None)"

definition inds_of :: "('i, 'v) buffer option \<Rightarrow> 'i list option" where
  "inds_of b = (case b of Some (IndBuf xs) \<Rightarrow> Some xs | _ \<Rightarrow> None)"

definition vals_of :: "('i, 'v) buffer option \<Rightarrow> 'v list option" where
  "vals_of b = (case b of Some (ValBuf xs) \<Rightarrow> Some xs | _ \<Rightarrow> None)"

text \<open>A store whose components for \<open>name\<close> satisfy the invariants; the \<open>nzdata\<close> component
  counts only when \<open>load\<close> reads it.\<close>

definition store_inv :: "('i::len word, 'v) store \<Rightarrow> string \<Rightarrow> bool \<Rightarrow> bool" where
  "store_inv readMatrixData name genNZData =
     (case meta_of (readMatrixData name ''meta'') of
        None \<Rightarrow> False
      | Some md \<Rightarrow>
          (case inds_of (readMatrixData name ''indptr'') of
             None \<Rightarrow> False
           | Some indPtrs \<Rightarrow>
               (case inds_of (readMatrixData name ''inds'') of
                  None \<Rightarrow> False
                | Some inds \<Rightarrow>
                    csr_index_inv md indPtrs inds
                    \<and> (genNZData
                         \<or> (case vals_of (readMatrixData name ''nzdata'') of
                               None \<Rightarrow> False
                             | Some nzData \<Rightarrow> unat (nz md) \<le> length nzData)))))"

text \<open>Boundaries as \<open>rowPartitionedView\<close> expects them: not decreasing, from 0 to the
  number of rows.\<close>

definition valid_boundaries :: "('i::len word, 'v) CSR \<Rightarrow> 'i word list \<Rightarrow> bool" where
  "valid_boundaries m boundaries =
     (boundaries \<noteq> [] \<and> unat (boundaries ! 0) = 0
      \<and> unat (last boundaries) = unat (rows (m_metadata m)) \<and> sorted boundaries)"

text \<open>A matrix on which the reads of \<open>rowPartitionedView\<close> stay inside the arrays: there
  are \<open>rows + 1\<close> index pointers, each an offset into \<open>inds\<close> and \<open>nzData\<close>.\<close>

definition offsets_in_bounds :: "('i::len word, 'v) CSR \<Rightarrow> bool" where
  "offsets_in_bounds m =
     (unat (rows (m_metadata m)) < length (m_indPtrs m)
      \<and> (\<forall>r \<le> unat (rows (m_metadata m)).
            unat (m_indPtrs m ! r) \<le> length (m_inds m)
            \<and> unat (m_indPtrs m ! r) \<le> length (m_nzData m)))"

text \<open>The decimal representation of a natural number, most significant digit first.\<close>

definition digit :: "nat \<Rightarrow> char" where
  "digit d = ''0123456789'' ! d"

fun decimal :: "nat \<Rightarrow> string" where
  "decimal n = (if n < 10 then [digit n] else decimal (n div 10) @ [digit (n mod 10)])"

text \<open>
  \<open>load\<close> throws string literals. The two error kinds of the specification are the
  literals of the two width checks and the literals of the three null checks.
\<close>

definition TypeMismatchError :: "'a outcome \<Rightarrow> bool" where
  "TypeMismatchError r =
     (r = Throw ''bytesPerInd mismatch in CSR::load''
      \<or> r = Throw ''bytesPerVal mismatch in CSR::load -- consider using genNZData'')"

definition FormatError :: "'a outcome \<Rightarrow> bool" where
  "FormatError r =
     (r = Throw ''could not load indptr in CSR::load''
      \<or> r = Throw ''could not load inds in CSR::load''
      \<or> r = Throw ''could not load nzdata in CSR::load'')"

subsection \<open>Concrete inputs\<close>

text \<open>A content of a fresh metadata struct, and the matrix that \<open>dense(3)\<close> builds in it
  for 32-bit indices and values.\<close>

definition fresh_md :: SparseMatrixMetadata where
  "fresh_md = \<lparr>rows = 7, cols = 7, nz = 7, startingRow = 7, startingCol = 7,
                bytesPerInd = 77, bytesPerVal = 88\<rparr>"

definition dense3 :: "(32 word, 32 word) CSR" where
  "dense3 = \<lparr>m_needsDealloc = True,
              m_metadata = \<lparr>rows = 3, cols = 3, nz = 9, startingRow = 0, startingCol = 0,
                             bytesPerInd = 77, bytesPerVal = 88\<rparr>,
              m_indPtrs = [0, 3, 6, 9],
              m_inds = [0, 1, 2, 0, 1, 2, 0, 1, 2],
              m_nzData = [1, 2, 3, 4, 5, 6, 7, 8, 9],
              m_name = ''dense''\<rparr>"

text \<open>The two children of \<open>dense3\<close> for the boundaries \<open>[0, 2, 3]\<close>.\<close>

definition dense3_children :: "(32 word, 32 word) CSR list" where
  "dense3_children =
     [\<lparr>m_needsDealloc = False,
       m_metadata = \<lparr>rows = 2, cols = 3, nz = 6, startingRow = 0, startingCol = 0,
                      bytesPerInd = 77, bytesPerVal = 88\<rparr>,
       m_indPtrs = [0, 3, 6, 9], m_inds = [0, 1, 2, 0, 1, 2, 0, 1, 2],
       m_nzData = [1, 2, 3, 4, 5, 6, 7, 8, 9], m_name = ''dense-p0''\<rparr>,
      \<lparr>m_needsDealloc = False,
       m_metadata = \<lparr>rows = 1, cols = 3, nz = 3, startingRow = 2, startingCol = 0,
                      bytesPerInd = 77, bytesPerVal = 88\<rparr>,
       m_indPtrs = [6, 9], m_inds = [0, 1, 2], m_nzData = [7, 8, 9],
       m_name = ''dense-p1''\<rparr>]"

text \<open>The matrix that \<open>eye(3)\<close> builds in \<open>fresh_md\<close>.\<close>

definition eye3 :: "(32 word, 32 word) CSR" where
  "eye3 = \<lparr>m_needsDealloc = True,
            m_metadata = \<lparr>rows = 3, cols = 3, nz = 3, startingRow = 0, startingCol = 0,
                           bytesPerInd = 77, bytesPerVal = 88\<rparr>,
            m_indPtrs = [0, 1, 2, 3], m_inds = [0, 1, 2], m_nzData = [1, 1, 1],
            m_name = ''eye''\<rparr>"

text \<open>The matrix that \<open>eye(0)\<close> builds: it has no row.\<close>

definition eye0 :: "(32 word, 32 word) CSR" where
  "eye0 = \<lparr>m_needsDealloc = True,
            m_metadata = \<lparr>rows = 0, cols = 0, nz = 0, startingRow = 0, startingCol = 0,
                           bytesPerInd = 77, bytesPerVal = 88\<rparr>,
            m_indPtrs = [0], m_inds = [], m_nzData = [], m_name = ''eye''\<rparr>"

text \<open>A store that knows no matrix, and a store that holds the arrays of \<open>dense(3)\<close>
  under the name \<open>dense3\<close> with a given metadata block.\<close>

definition empty_store :: "(32 word, 32 word) store" where
  "empty_store name component = None"

definition dense3_store :: "SparseMatrixMetadata \<Rightarrow> (32 word, 32 word) store" where
  "dense3_store md name component =
     (if name \<noteq> ''dense3'' then None
      else if component = ''meta'' then Some (MetaBuf md)
      else if component = ''indptr'' then Some (IndBuf [0, 3, 6, 9])
      else if component = ''inds'' then Some (IndBuf [0, 1, 2, 0, 1, 2, 0, 1, 2])
      else if component = ''nzdata'' then Some (ValBuf [1, 2, 3, 4, 5, 6, 7, 8, 9])
      else None)"

definition dense3_md :: "uint \<Rightarrow> uint \<Rightarrow> SparseMatrixMetadata" where
  "dense3_md bpi bpv = \<lparr>rows = 3, cols = 3, nz = 9, startingRow = 0, startingCol = 0,
                         bytesPerInd = bpi, bytesPerVal = bpv\<rparr>"

text \<open>The equations of the loops are unfolded one turn at a time.\<close>

declare genNZData_loop.simps [simp del]
declare calcRowPartitionBoundaries_loop.simps [simp del]
declare itoa_loop.simps [simp del]
declare reverse_loop.simps [simp del]
declare rowPartitionedView_loop.simps [simp del]
declare decimal.simps [simp del]

text \<open>The partial functions are run with their recursion equations.\<close>

declare eye_loop.simps [code]
declare dense_loop1.simps [code]
declare dense_loop2.simps [code]

section \<open>Words\<close>

lemma unat_Suc_no_wrap:
  fixes i :: "'a::len word"
  assumes "Suc (unat i) < 2 ^ LENGTH('a)"
  shows "unat (i + 1) = Suc (unat i)"
proof -
  have "unat i + unat (1 :: 'a word) < 2 ^ LENGTH('a)"
    using assms by (simp add: unat_1)
  then show ?thesis
    by (simp add: unat_add_lem [THEN iffD1])
qed

lemma unat_Suc_less:
  fixes i n :: "'a::len word"
  assumes "i < n"
  shows "unat (i + 1) = Suc (unat i)"
proof -
  have "unat i < unat n"
    using assms by (simp add: word_less_nat_alt)
  moreover have "unat n < 2 ^ LENGTH('a)"
    by (rule unsigned_less)
  ultimately have "Suc (unat i) < 2 ^ LENGTH('a)"
    by linarith
  then show ?thesis
    by (rule unat_Suc_no_wrap)
qed

lemma unat_of_nat_small:
  "k < 2 ^ LENGTH('a::len) \<Longrightarrow> unat (of_nat k :: 'a word) = k"
  by (simp add: unat_of_nat)

lemma unat_ucast_small:
  fixes w :: "'a::len word"
  assumes "unat w < 2 ^ LENGTH('b::len)"
  shows "unat (ucast w :: 'b word) = unat w"
  using assms by (simp add: unsigned_ucast_eq take_bit_nat_eq_self)

lemma ucast_diff_unat:
  fixes a b :: "'i::len word"
  assumes "b \<le> a" and "unat a - unat b < 2 ^ 32"
  shows "unat (ucast a - ucast b :: uint) = unat a - unat b"
proof -
  have le: "unat b \<le> unat a"
    using assms(1) by (simp add: word_le_nat_alt)
  have "(ucast a - ucast b :: uint) = of_nat (unat a) - of_nat (unat b)"
    by simp
  also have "\<dots> = of_nat (unat a - unat b)"
    using le by (simp add: of_nat_diff)
  finally have "(ucast a - ucast b :: uint) = of_nat (unat a - unat b)" .
  moreover have "unat (of_nat (unat a - unat b) :: uint) = unat a - unat b"
    using assms(2) by (intro unat_of_nat_small) simp
  ultimately show ?thesis
    by simp
qed

lemma sint_of_nat_small:
  assumes "j < 2 ^ 31"
  shows "sint (of_nat j :: uint) = int j"
proof -
  have "unat (of_nat j :: uint) = j"
    using assms by (intro unat_of_nat_small) simp
  then have "uint (of_nat j :: uint) = int j"
    by (simp add: uint_nat)
  then show ?thesis
    using assms by (simp add: sint_uint signed_take_bit_int_eq_self)
qed

lemma of_nat_mono_word:
  assumes "a \<le> b" and "b < 2 ^ LENGTH('a::len)"
  shows "(of_nat a :: 'a word) \<le> of_nat b"
proof -
  have "unat (of_nat a :: 'a word) = a" "unat (of_nat b :: 'a word) = b"
    using assms by (simp_all add: unat_of_nat_small)
  with assms(1) show ?thesis
    by (simp add: word_le_nat_alt)
qed

section \<open>The synthetic constructors in closed form\<close>

lemma fill_step:
  assumes "k < n" "n \<le> length a"
  shows "take (Suc k) (a[k := f k]) @ map f [Suc k..<n] @ drop n (a[k := f k])
       = take k a @ map f [k..<n] @ drop n a"
proof -
  have "take (Suc k) (a[k := f k]) = take k a @ [f k]"
    using assms by (simp add: take_Suc_conv_app_nth)
  moreover have "drop n (a[k := f k]) = drop n a"
    using assms by simp
  moreover have "[k..<n] = k # [Suc k..<n]"
    using assms by (simp add: upt_conv_Cons)
  ultimately show ?thesis
    by simp
qed

lemma eye_loop_closed:
  fixes i :: "'i::len word" and ret :: "('i word, 'v::len word) CSR"
  assumes "unat dim < 2 ^ LENGTH('i)" and "unat i \<le> unat dim"
    and "unat dim \<le> length (m_indPtrs ret)" and "unat dim \<le> length (m_inds ret)"
    and "unat dim \<le> length (m_nzData ret)"
  shows "eye_loop dim i ret = Some (Ok (ret
    \<lparr>m_indPtrs := take (unat i) (m_indPtrs ret) @ map of_nat [unat i..<unat dim]
        @ drop (unat dim) (m_indPtrs ret),
     m_inds := take (unat i) (m_inds ret) @ map of_nat [unat i..<unat dim]
        @ drop (unat dim) (m_inds ret),
     m_nzData := take (unat i) (m_nzData ret) @ map (\<lambda>k. 1) [unat i..<unat dim]
        @ drop (unat dim) (m_nzData ret)\<rparr>))"
  using assms
proof (induction "unat dim - unat i" arbitrary: i ret)
  case 0
  then have e: "unat i = unat dim"
    by simp
  show ?case
    by (subst eye_loop.simps) (simp add: e)
next
  case (Suc d)
  then have lt: "unat i < unat dim"
    by simp
  then have s: "unat (i + 1) = Suc (unat i)"
    using Suc.prems(1) by (intro unat_Suc_no_wrap) simp
  let ?ret = "ret\<lparr>m_indPtrs := (m_indPtrs ret)[unat i := i],
                     m_inds := (m_inds ret)[unat i := i],
                     m_nzData := (m_nzData ret)[unat i := 1]\<rparr>"
  have step: "eye_loop dim i ret = eye_loop dim (i + 1) ?ret"
    using lt Suc.prems by (subst eye_loop.simps) simp
  have d: "d = unat dim - unat (i + 1)"
    using Suc.hyps(2) s by simp
  have ih: "eye_loop dim (i + 1) ?ret = Some (Ok (?ret
    \<lparr>m_indPtrs := take (unat (i + 1)) (m_indPtrs ?ret) @ map of_nat [unat (i + 1)..<unat dim]
        @ drop (unat dim) (m_indPtrs ?ret),
     m_inds := take (unat (i + 1)) (m_inds ?ret) @ map of_nat [unat (i + 1)..<unat dim]
        @ drop (unat dim) (m_inds ?ret),
     m_nzData := take (unat (i + 1)) (m_nzData ?ret) @ map (\<lambda>k. 1) [unat (i + 1)..<unat dim]
        @ drop (unat dim) (m_nzData ?ret)\<rparr>))"
    using Suc.prems lt s by (intro Suc.hyps(1) [OF d]) simp_all
  have a: "take (Suc (unat i)) ((m_indPtrs ret)[unat i := i])
        @ map of_nat [Suc (unat i)..<unat dim] @ drop (unat dim) ((m_indPtrs ret)[unat i := i])
      = take (unat i) (m_indPtrs ret) @ map of_nat [unat i..<unat dim]
        @ drop (unat dim) (m_indPtrs ret)"
    using fill_step [of "unat i" "unat dim" "m_indPtrs ret" of_nat] lt Suc.prems by simp
  have b: "take (Suc (unat i)) ((m_inds ret)[unat i := i])
        @ map of_nat [Suc (unat i)..<unat dim] @ drop (unat dim) ((m_inds ret)[unat i := i])
      = take (unat i) (m_inds ret) @ map of_nat [unat i..<unat dim]
        @ drop (unat dim) (m_inds ret)"
    using fill_step [of "unat i" "unat dim" "m_inds ret" of_nat] lt Suc.prems by simp
  have c: "take (Suc (unat i)) ((m_nzData ret)[unat i := 1])
        @ map (\<lambda>k. 1) [Suc (unat i)..<unat dim] @ drop (unat dim) ((m_nzData ret)[unat i := 1])
      = take (unat i) (m_nzData ret) @ map (\<lambda>k. 1) [unat i..<unat dim]
        @ drop (unat dim) (m_nzData ret)"
    using fill_step [of "unat i" "unat dim" "m_nzData ret" "\<lambda>k. 1"] lt Suc.prems by simp
  show ?case
    unfolding step ih s by (simp add: a b c)
qed

lemma drop_new_array_Suc: "drop n (new_array (Suc n)) = [0]"
  unfolding new_array_def drop_replicate by simp

lemma drop_new_array: "drop n (new_array n) = []"
  by (simp add: new_array_def)

lemma eye_closed:
  fixes dim :: uint
  assumes nov: "Suc (unat dim) < 2 ^ 32" and fit: "unat dim < 2 ^ LENGTH('i::len)"
  shows "(eye md0 dim :: ('i word, 'v::len word) CSR outcome option) =
    Some (Ok \<lparr>m_needsDealloc = True,
              m_metadata = md0\<lparr>startingRow := 0, startingCol := 0, cols := dim, rows := dim,
                              nz := dim\<rparr>,
              m_indPtrs = map of_nat [0..<Suc (unat dim)],
              m_inds = map of_nat [0..<unat dim],
              m_nzData = replicate (unat dim) 1,
              m_name = ''eye''\<rparr>)"
proof -
  have s: "unat (dim + 1) = Suc (unat dim)"
    using nov by (intro unat_Suc_no_wrap) simp
  let ?ret = "\<lparr>m_needsDealloc = False,
              m_metadata = md0\<lparr>startingRow := 0, startingCol := 0, cols := dim, rows := dim,
                              nz := dim\<rparr>,
              m_indPtrs = (new_array (Suc (unat dim)) :: 'i word list),
              m_inds = (new_array (unat dim) :: 'i word list),
              m_nzData = (new_array (unat dim) :: 'v word list),
              m_name = ''<not initialized>''\<rparr>"
  have "eye_loop dim 0 ?ret = Some (Ok (?ret
    \<lparr>m_indPtrs := take (unat (0 :: 'i word)) (m_indPtrs ?ret)
        @ map of_nat [unat (0 :: 'i word)..<unat dim] @ drop (unat dim) (m_indPtrs ?ret),
     m_inds := take (unat (0 :: 'i word)) (m_inds ?ret)
        @ map of_nat [unat (0 :: 'i word)..<unat dim] @ drop (unat dim) (m_inds ?ret),
     m_nzData := take (unat (0 :: 'i word)) (m_nzData ?ret)
        @ map (\<lambda>k. 1) [unat (0 :: 'i word)..<unat dim] @ drop (unat dim) (m_nzData ?ret)\<rparr>))"
    using fit by (intro eye_loop_closed) (simp_all add: new_array_def)
  then have loop: "eye_loop dim 0 ?ret = Some (Ok (?ret
    \<lparr>m_indPtrs := map of_nat [0..<unat dim] @ [0],
     m_inds := map of_nat [0..<unat dim],
     m_nzData := replicate (unat dim) 1\<rparr>))"
    by (simp add: drop_new_array_Suc drop_new_array map_replicate_const)
  have last: "(map of_nat [0..<unat dim] @ [0 :: 'i word])[unat dim := ucast dim]
      = map of_nat [0..<Suc (unat dim)]"
    by (simp add: list_update_append)
  show ?thesis
    by (simp add: eye_def s loop last)
qed

lemma dense_loop1_closed:
  fixes i :: "'i::len word"
  assumes "unat dim < 2 ^ LENGTH('i)" and "unat i \<le> unat dim" and "unat dim \<le> length a"
  shows "dense_loop1 dim i a = Some (Ok (take (unat i) a
    @ map (\<lambda>k. of_nat (k * unat dim)) [unat i..<unat dim] @ drop (unat dim) a))"
  using assms
proof (induction "unat dim - unat i" arbitrary: i a)
  case 0
  then have e: "unat i = unat dim"
    by simp
  show ?case
    by (subst dense_loop1.simps) (simp add: e)
next
  case (Suc d)
  then have lt: "unat i < unat dim"
    by simp
  then have s: "unat (i + 1) = Suc (unat i)"
    using Suc.prems(1) by (intro unat_Suc_no_wrap) simp
  let ?f = "\<lambda>k. of_nat (k * unat dim) :: 'i word"
  have step: "dense_loop1 dim i a = dense_loop1 dim (i + 1) (a[unat i := ?f (unat i)])"
    using lt Suc.prems by (subst dense_loop1.simps) simp
  have d: "d = unat dim - unat (i + 1)"
    using Suc.hyps(2) s by simp
  have ih: "dense_loop1 dim (i + 1) (a[unat i := ?f (unat i)]) =
      Some (Ok (take (unat (i + 1)) (a[unat i := ?f (unat i)])
        @ map ?f [unat (i + 1)..<unat dim] @ drop (unat dim) (a[unat i := ?f (unat i)])))"
    using Suc.prems lt s by (intro Suc.hyps(1) [OF d]) simp_all
  show ?case
    unfolding step ih s using fill_step [of "unat i" "unat dim" a ?f] lt Suc.prems by simp
qed

lemma dense_loop2_closed:
  fixes i :: "'i::len word" and arrays :: "'i word list \<times> 'v::len word list"
  assumes "unat (dim * dim) < 2 ^ LENGTH('i)" and "unat i \<le> unat (dim * dim)"
    and "unat (dim * dim) \<le> length (fst arrays)" and "unat (dim * dim) \<le> length (snd arrays)"
  shows "dense_loop2 dim i arrays = Some (Ok
    (take (unat i) (fst arrays) @ map (\<lambda>k. of_nat (k mod unat dim)) [unat i..<unat (dim * dim)]
       @ drop (unat (dim * dim)) (fst arrays),
     take (unat i) (snd arrays) @ map (\<lambda>k. of_nat (Suc k)) [unat i..<unat (dim * dim)]
       @ drop (unat (dim * dim)) (snd arrays)))"
  using assms
proof (induction "unat (dim * dim) - unat i" arbitrary: i arrays)
  case 0
  then have e: "unat i = unat (dim * dim)"
    by simp
  show ?case
    by (subst dense_loop2.simps) (simp add: e)
next
  case (Suc d)
  then have lt: "unat i < unat (dim * dim)"
    by simp
  then have s: "unat (i + 1) = Suc (unat i)"
    using Suc.prems(1) by (intro unat_Suc_no_wrap) simp
  have nz: "dim \<noteq> 0"
    using lt by auto
  let ?f = "\<lambda>k. of_nat (k mod unat dim) :: 'i word"
  let ?g = "\<lambda>k. of_nat (Suc k) :: 'v word"
  let ?arrays = "((fst arrays)[unat i := ?f (unat i)], (snd arrays)[unat i := ?g (unat i)])"
  have step: "dense_loop2 dim i arrays = dense_loop2 dim (i + 1) ?arrays"
    using lt nz Suc.prems by (subst dense_loop2.simps) simp
  have d: "d = unat (dim * dim) - unat (i + 1)"
    using Suc.hyps(2) s by simp
  have ih: "dense_loop2 dim (i + 1) ?arrays = Some (Ok
    (take (unat (i + 1)) (fst ?arrays) @ map ?f [unat (i + 1)..<unat (dim * dim)]
       @ drop (unat (dim * dim)) (fst ?arrays),
     take (unat (i + 1)) (snd ?arrays) @ map ?g [unat (i + 1)..<unat (dim * dim)]
       @ drop (unat (dim * dim)) (snd ?arrays)))"
    using Suc.prems lt s by (intro Suc.hyps(1) [OF d]) simp_all
  show ?case
    unfolding step ih s
    using fill_step [of "unat i" "unat (dim * dim)" "fst arrays" ?f]
      fill_step [of "unat i" "unat (dim * dim)" "snd arrays" ?g] lt Suc.prems
    by simp
qed

lemma dense_closed:
  fixes dim :: uint
  assumes nov: "Suc (unat dim) < 2 ^ 32" and fit: "unat dim < 2 ^ LENGTH('i::len)"
    and fit2: "unat (dim * dim) < 2 ^ LENGTH('i)"
  shows "(dense md0 dim :: ('i word, 'v::len word) CSR outcome option) =
    Some (Ok \<lparr>m_needsDealloc = True,
              m_metadata = md0\<lparr>startingRow := 0, startingCol := 0, cols := dim, rows := dim,
                              nz := dim * dim\<rparr>,
              m_indPtrs = map (\<lambda>k. of_nat (k * unat dim)) [0..<unat dim] @ [ucast (dim * dim)],
              m_inds = map (\<lambda>k. of_nat (k mod unat dim)) [0..<unat (dim * dim)],
              m_nzData = map (\<lambda>k. of_nat (Suc k)) [0..<unat (dim * dim)],
              m_name = ''dense''\<rparr>)"
proof -
  have s: "unat (dim + 1) = Suc (unat dim)"
    using nov by (intro unat_Suc_no_wrap) simp
  have "dense_loop1 dim (0 :: 'i word) (new_array (Suc (unat dim))) =
      Some (Ok (take (unat (0 :: 'i word)) (new_array (Suc (unat dim)))
        @ map (\<lambda>k. of_nat (k * unat dim)) [unat (0 :: 'i word)..<unat dim]
        @ drop (unat dim) (new_array (Suc (unat dim)))))"
    using fit by (intro dense_loop1_closed) (simp_all add: new_array_def)
  then have loop1: "dense_loop1 dim (0 :: 'i word) (new_array (Suc (unat dim))) =
      Some (Ok (map (\<lambda>k. of_nat (k * unat dim)) [0..<unat dim] @ [0]))"
    by (simp add: drop_new_array_Suc)
  let ?arrays = "(new_array (unat (dim * dim)) :: 'i word list,
                  new_array (unat (dim * dim)) :: 'v word list)"
  have "dense_loop2 dim (0 :: 'i word) ?arrays = Some (Ok
    (take (unat (0 :: 'i word)) (fst ?arrays)
       @ map (\<lambda>k. of_nat (k mod unat dim)) [unat (0 :: 'i word)..<unat (dim * dim)]
       @ drop (unat (dim * dim)) (fst ?arrays),
     take (unat (0 :: 'i word)) (snd ?arrays)
       @ map (\<lambda>k. of_nat (Suc k)) [unat (0 :: 'i word)..<unat (dim * dim)]
       @ drop (unat (dim * dim)) (snd ?arrays)))"
    using fit2 by (intro dense_loop2_closed) (simp_all add: new_array_def)
  then have loop2: "dense_loop2 dim (0 :: 'i word) ?arrays = Some (Ok
    (map (\<lambda>k. of_nat (k mod unat dim)) [0..<unat (dim * dim)],
     map (\<lambda>k. of_nat (Suc k)) [0..<unat (dim * dim)]))"
    by (simp add: drop_new_array)
  show ?thesis
    by (simp add: dense_def s loop1 loop2 list_update_append)
qed

lemma dense_3:
  "(dense md0 3 :: (32 word, 32 word) CSR outcome option) =
    Some (Ok \<lparr>m_needsDealloc = True,
              m_metadata = md0\<lparr>startingRow := 0, startingCol := 0, cols := 3, rows := 3,
                              nz := 9\<rparr>,
              m_indPtrs = [0, 3, 6, 9],
              m_inds = [0, 1, 2, 0, 1, 2, 0, 1, 2],
              m_nzData = [1, 2, 3, 4, 5, 6, 7, 8, 9],
              m_name = ''dense''\<rparr>)"
  by (subst dense_closed) (simp_all add: upt_rec)

lemma returned_Some: "returned r \<noteq> None \<longleftrightarrow> (\<exists>m. r = Some (Ok m))"
  by (auto simp: returned_def split: option.splits outcome.splits)

lemma dense_metadata:
  "dense md0 dim = Some (Ok m) \<Longrightarrow>
   m_metadata m = md0\<lparr>startingRow := 0, startingCol := 0, cols := dim, rows := dim,
                       nz := dim * dim\<rparr>"
  by (auto simp: dense_def split: option.splits outcome.splits if_splits prod.splits)

lemma eye_loop_metadata:
  assumes "eye_loop dim i ret = Some r"
  shows "\<forall>ret'. r = Ok ret' \<longrightarrow> m_metadata ret' = m_metadata ret"
proof (rule eye_loop.raw_induct
    [where P = "\<lambda>dim i ret r. \<forall>ret'. r = Ok ret' \<longrightarrow> m_metadata ret' = m_metadata ret",
      OF _ assms])
  fix f :: "uint \<Rightarrow> 'a word \<Rightarrow> ('a word, 'b word) CSR \<Rightarrow> ('a word, 'b word) CSR outcome option"
    and dim i ret r
  assume ih: "\<And>dim i ret r. f dim i ret = Some r \<Longrightarrow>
      \<forall>ret'. r = Ok ret' \<longrightarrow> m_metadata ret' = m_metadata ret"
  assume step: "(if unat i < unat dim then
        (if unat i < length (m_indPtrs ret) \<and> unat i < length (m_inds ret)
            \<and> unat i < length (m_nzData ret)
         then f dim (i + 1)
                (ret\<lparr>m_indPtrs := (m_indPtrs ret)[unat i := i],
                     m_inds := (m_inds ret)[unat i := i],
                     m_nzData := (m_nzData ret)[unat i := 1]\<rparr>)
         else Some Undefined)
      else Some (Ok ret)) = Some r"
  show "\<forall>ret'. r = Ok ret' \<longrightarrow> m_metadata ret' = m_metadata ret"
  proof (cases "unat i < unat dim")
    case True
    show ?thesis
    proof (cases "unat i < length (m_indPtrs ret) \<and> unat i < length (m_inds ret)
        \<and> unat i < length (m_nzData ret)")
      case inb: True
      with True step have "f dim (i + 1)
          (ret\<lparr>m_indPtrs := (m_indPtrs ret)[unat i := i], m_inds := (m_inds ret)[unat i := i],
               m_nzData := (m_nzData ret)[unat i := 1]\<rparr>) = Some r"
        by simp
      from ih [OF this] show ?thesis
        by simp
    next
      case False
      with True step show ?thesis
        by auto
    qed
  next
    case False
    with step show ?thesis
      by auto
  qed
qed

lemma eye_metadata:
  "eye md0 dim = Some (Ok m) \<Longrightarrow>
   m_metadata m = md0\<lparr>startingRow := 0, startingCol := 0, cols := dim, rows := dim, nz := dim\<rparr>"
  by (auto simp: eye_def split: option.splits outcome.splits if_splits
      dest!: eye_loop_metadata)

lemma eye_undefined_at_max: "eye md0 (- 1) = Some Undefined"
proof -
  have "unat (- 1 + 1 :: uint) = 0"
    by simp
  then show ?thesis
    by (simp add: eye_def new_array_def) (subst eye_loop.simps, simp)
qed

lemma eye_loop_exit:
  fixes i :: "'i::len word" and ret :: "('i word, 'b::len word) CSR"
  assumes "eye_loop dim i ret = Some r"
  shows "\<forall>ret'. r = Ok ret' \<longrightarrow> unat dim < 2 ^ LENGTH('i)"
proof (rule eye_loop.raw_induct
    [where P = "\<lambda>dim (i :: 'i word) (ret :: ('i word, 'b::len word) CSR) r.
        \<forall>ret'. r = Ok ret' \<longrightarrow> unat dim < 2 ^ LENGTH('i)",
      OF _ assms])
  fix f :: "uint \<Rightarrow> 'i word \<Rightarrow> ('i word, 'b word) CSR \<Rightarrow> ('i word, 'b word) CSR outcome option"
    and dim and i :: "'i word" and ret r
  assume ih: "\<And>dim i ret r. f dim i ret = Some r \<Longrightarrow>
      \<forall>ret'. r = Ok ret' \<longrightarrow> unat dim < 2 ^ LENGTH('i)"
  assume step: "(if unat i < unat dim then
        (if unat i < length (m_indPtrs ret) \<and> unat i < length (m_inds ret)
            \<and> unat i < length (m_nzData ret)
         then f dim (i + 1)
                (ret\<lparr>m_indPtrs := (m_indPtrs ret)[unat i := i],
                     m_inds := (m_inds ret)[unat i := i],
                     m_nzData := (m_nzData ret)[unat i := 1]\<rparr>)
         else Some Undefined)
      else Some (Ok ret)) = Some r"
  show "\<forall>ret'. r = Ok ret' \<longrightarrow> unat dim < 2 ^ LENGTH('i)"
  proof (cases "unat i < unat dim")
    case True
    with step ih show ?thesis
      by (auto split: if_splits)
  next
    case False
    have "unat i < 2 ^ LENGTH('i)"
      by (rule unsigned_less)
    with False have "unat dim < 2 ^ LENGTH('i)"
      by linarith
    then show ?thesis
      by simp
  qed
qed

lemma dense_loop1_exit:
  fixes i :: "'i::len word"
  assumes "dense_loop1 dim i a = Some r"
  shows "\<forall>a'. r = Ok a' \<longrightarrow> unat dim < 2 ^ LENGTH('i)"
proof (rule dense_loop1.raw_induct
    [where P = "\<lambda>dim (i :: 'i word) (a :: 'i word list) r.
        \<forall>a'. r = Ok a' \<longrightarrow> unat dim < 2 ^ LENGTH('i)",
      OF _ assms])
  fix f :: "uint \<Rightarrow> 'i word \<Rightarrow> 'i word list \<Rightarrow> 'i word list outcome option"
    and dim and i :: "'i word" and a r
  assume ih: "\<And>dim i a r. f dim i a = Some r \<Longrightarrow>
      \<forall>a'. r = Ok a' \<longrightarrow> unat dim < 2 ^ LENGTH('i)"
  assume step: "(if unat i < unat dim then
        (if unat i < length a
         then f dim (i + 1) (a[unat i := of_nat (unat i * unat dim)])
         else Some Undefined)
      else Some (Ok a)) = Some r"
  show "\<forall>a'. r = Ok a' \<longrightarrow> unat dim < 2 ^ LENGTH('i)"
  proof (cases "unat i < unat dim")
    case True
    with step ih show ?thesis
      by (auto split: if_splits)
  next
    case False
    have "unat i < 2 ^ LENGTH('i)"
      by (rule unsigned_less)
    with False have "unat dim < 2 ^ LENGTH('i)"
      by linarith
    then show ?thesis
      by simp
  qed
qed

lemma dense_loop2_exit:
  fixes i :: "'i::len word" and arrays :: "'i word list \<times> 'b::len word list"
  assumes "dense_loop2 dim i arrays = Some r"
  shows "\<forall>a'. r = Ok a' \<longrightarrow> unat (dim * dim) < 2 ^ LENGTH('i)"
proof (rule dense_loop2.raw_induct
    [where P = "\<lambda>dim (i :: 'i word) (arrays :: 'i word list \<times> 'b::len word list) r.
        \<forall>a'. r = Ok a' \<longrightarrow> unat (dim * dim) < 2 ^ LENGTH('i)",
      OF _ assms])
  fix f :: "uint \<Rightarrow> 'i word \<Rightarrow> 'i word list \<times> 'b word list
      \<Rightarrow> ('i word list \<times> 'b word list) outcome option"
    and dim and i :: "'i word" and arrays r
  assume ih: "\<And>dim i arrays r. f dim i arrays = Some r \<Longrightarrow>
      \<forall>a'. r = Ok a' \<longrightarrow> unat (dim * dim) < 2 ^ LENGTH('i)"
  assume step: "(if unat i < unat (dim * dim) then
        (if dim \<noteq> 0 \<and> unat i < length (fst arrays) \<and> unat i < length (snd arrays)
         then f dim (i + 1)
                ((fst arrays)[unat i := of_nat (unat i mod unat dim)],
                 (snd arrays)[unat i := of_nat (unat i + 1)])
         else Some Undefined)
      else Some (Ok arrays)) = Some r"
  show "\<forall>a'. r = Ok a' \<longrightarrow> unat (dim * dim) < 2 ^ LENGTH('i)"
  proof (cases "unat i < unat (dim * dim)")
    case True
    with step ih show ?thesis
      by (auto split: if_splits)
  next
    case False
    have "unat i < 2 ^ LENGTH('i)"
      by (rule unsigned_less)
    with False have "unat (dim * dim) < 2 ^ LENGTH('i)"
      by linarith
    then show ?thesis
      by simp
  qed
qed

lemma eye_ok_bounds:
  assumes "(eye md0 dim :: ('i::len word, 'v::len word) CSR outcome option) = Some (Ok m)"
  shows "Suc (unat dim) < 2 ^ 32 \<and> unat dim < 2 ^ LENGTH('i)"
proof
  have "dim \<noteq> - 1"
    using assms eye_undefined_at_max [of md0, where ?'a = 'i and ?'b = 'v] by auto
  then have "1 + dim \<noteq> 0"
    by (simp add: add_eq_0_iff)
  then have "unat (1 + dim) = Suc (unat dim)"
    by (rule unatSuc)
  moreover have "unat (1 + dim) < 2 ^ 32"
    using unsigned_less [of "1 + dim", where 'a = nat] by simp
  ultimately show "Suc (unat dim) < 2 ^ 32"
    by simp
next
  show "unat dim < 2 ^ LENGTH('i)"
    using assms
    by (auto simp: eye_def split: option.splits outcome.splits if_splits dest!: eye_loop_exit)
qed

lemma dense_ok_bounds:
  assumes "(dense md0 dim :: ('i::len word, 'v::len word) CSR outcome option) = Some (Ok m)"
  shows "unat dim < 2 ^ LENGTH('i) \<and> unat (dim * dim) < 2 ^ LENGTH('i)"
  using assms
  by (auto simp: dense_def split: option.splits outcome.splits if_splits prod.splits
      dest!: dense_loop1_exit dense_loop2_exit)

lemma dense_fresh_3: "dense fresh_md 3 = Some (Ok dense3)"
  by (simp add: dense_3 dense3_def fresh_md_def)

lemma eye_fresh_3: "eye fresh_md 3 = Some (Ok eye3)"
  by code_simp

lemma eye_fresh_0: "eye fresh_md 0 = Some (Ok eye0)"
  by code_simp

section \<open>Row partition boundaries\<close>

lemma calc_loop_closed:
  "i \<le> numPartitions \<Longrightarrow>
   calcRowPartitionBoundaries_loop divSize numPartitions i boundaries =
     boundaries @ map (\<lambda>k. ucast (divSize * of_nat k)) [unat i..<unat numPartitions]"
proof (induction divSize numPartitions i boundaries rule: calcRowPartitionBoundaries_loop.induct)
  case (1 divSize numPartitions i boundaries)
  show ?case
  proof (cases "i < numPartitions")
    case True
    then have s: "unat (i + 1) = Suc (unat i)"
      by (rule unat_Suc_less)
    have lt: "unat i < unat numPartitions"
      using True by (simp add: word_less_nat_alt)
    have le: "i + 1 \<le> numPartitions"
      using True by (rule inc_le)
    have "calcRowPartitionBoundaries_loop divSize numPartitions i boundaries =
        calcRowPartitionBoundaries_loop divSize numPartitions (i + 1)
          (boundaries @ [ucast (divSize * i)])"
      using True by (subst calcRowPartitionBoundaries_loop.simps) simp
    also have "\<dots> = (boundaries @ [ucast (divSize * i)]) @
        map (\<lambda>k. ucast (divSize * of_nat k)) [unat (i + 1)..<unat numPartitions]"
      using "1.IH" [OF True le] .
    also have "\<dots> = boundaries @
        map (\<lambda>k. ucast (divSize * of_nat k)) [unat i..<unat numPartitions]"
      using lt by (simp add: s upt_conv_Cons)
    finally show ?thesis .
  next
    case False
    with "1.prems" have "i = numPartitions"
      by simp
    then show ?thesis
      by (subst calcRowPartitionBoundaries_loop.simps) simp
  qed
qed

lemma calc_closed:
  "numPartitions \<noteq> 0 \<Longrightarrow>
   calcRowPartitionBoundaries m numPartitions =
     Ok (map (\<lambda>k. ucast (((rows (m_metadata m) + numPartitions) div numPartitions) * of_nat k))
           [0..<unat numPartitions] @ [ucast (rows (m_metadata m))])"
  by (simp add: calcRowPartitionBoundaries_def calc_loop_closed)


lemma divSize_exact:
  fixes r np :: uint
  assumes np: "np \<noteq> 0" and nov: "unat r + unat np < 2 ^ 32" and k: "k \<le> unat np"
  shows "unat (((r + np) div np) * of_nat k) = ((unat r + unat np) div unat np) * k"
proof -
  have np0: "0 < unat np"
    using np by (simp add: unat_gt_0)
  have sum: "unat (r + np) = unat r + unat np"
    using nov by (simp add: unat_add_lem [THEN iffD1])
  have d: "unat ((r + np) div np) = (unat r + unat np) div unat np"
    by (simp add: unat_div sum)
  have klt: "k < 2 ^ 32"
    using k nov by linarith
  have uk: "unat (of_nat k :: uint) = k"
    using klt by (simp add: unat_of_nat)
  have "((unat r + unat np) div unat np) * k \<le> ((unat r + unat np) div unat np) * unat np"
    using k by simp
  also have "\<dots> \<le> unat r + unat np"
    by simp
  finally have "unat ((r + np) div np) * unat (of_nat k :: uint) < 2 ^ LENGTH(32)"
    using nov by (simp add: d uk)
  then have "unat (((r + np) div np) * of_nat k) = unat ((r + np) div np) * unat (of_nat k :: uint)"
    by (simp add: unat_mult_lem [THEN iffD1])
  then show ?thesis
    by (simp add: d uk)
qed

text \<open>
  Claim C1, amended. For a matrix with \<open>r\<close> rows and \<open>numPartitions \<ge> 1\<close> such that
  \<open>r + numPartitions\<close> does not overflow \<open>unsigned int\<close> (or \<open>numPartitions\<close> is 1) and
  the claimed numbers are values of \<open>SpMVInd\<close>, that is \<open>r\<close> and the greatest of the others,
  \<open>((r + numPartitions) / numPartitions) * (numPartitions - 1)\<close>,
  \<open>calcRowPartitionBoundaries\<close> returns \<open>numPartitions + 1\<close> entries; entry \<open>i\<close> below
  \<open>numPartitions\<close> is \<open>((r + numPartitions) / numPartitions) * i\<close> and the last entry is
  \<open>r\<close>. On the matrix that \<open>dense(3)\<close> returns, \<open>calcRowPartitionBoundaries(3)\<close> returns
  \<open>[0, 2, 4, 3]\<close>.
\<close>

theorem calcRowPartitionBoundaries_formula:
  fixes m :: "('i::len word, 'v) CSR" and D :: "('j::len word, 'w::len word) CSR"
    and numPartitions :: uint
  defines "r \<equiv> unat (rows (m_metadata m))" and "n \<equiv> unat numPartitions"
  shows "(1 \<le> numPartitions
          \<and> (numPartitions = 1 \<or> r + n < 2 ^ 32)
          \<and> r < 2 ^ LENGTH('i)
          \<and> ((r + n) div n) * (n - 1) < 2 ^ LENGTH('i) \<longrightarrow>
          (\<exists>bs. calcRowPartitionBoundaries m numPartitions = Ok bs
             \<and> length bs = n + 1
             \<and> (\<forall>i < n. unat (bs ! i) = ((r + n) div n) * i)
             \<and> unat (bs ! n) = r))
       \<and> (dense md0 3 = Some (Ok D) \<longrightarrow> calcRowPartitionBoundaries D 3 = Ok [0, 2, 4, 3])"
proof (intro conjI impI)
  assume h: "1 \<le> numPartitions
      \<and> (numPartitions = 1 \<or> r + n < 2 ^ 32)
      \<and> r < 2 ^ LENGTH('i)
      \<and> ((r + n) div n) * (n - 1) < 2 ^ LENGTH('i)"
  then have np: "numPartitions \<noteq> 0"
    by auto
  from h have nov: "numPartitions = 1 \<or> r + n < 2 ^ 32"
    and fit: "r < 2 ^ LENGTH('i)"
    and top: "((r + n) div n) * (n - 1) < 2 ^ LENGTH('i)"
    by simp_all
  define divSize where "divSize = (rows (m_metadata m) + numPartitions) div numPartitions"
  define f :: "nat \<Rightarrow> 'i word" where "f = (\<lambda>k. ucast (divSize * of_nat k))"
  define bs where "bs = map f [0..<n] @ [ucast (rows (m_metadata m)) :: 'i word]"
  have eq: "calcRowPartitionBoundaries m numPartitions = Ok bs"
    using np by (simp add: calc_closed bs_def f_def divSize_def n_def)
  have len: "length bs = n + 1"
    by (simp add: bs_def)
  have nth: "bs ! i = f i" if "i < n" for i
    using that by (simp add: bs_def nth_append)
  have last: "unat (bs ! n) = r"
    using fit by (simp add: bs_def nth_append unat_ucast_small r_def)
  have entry: "unat (bs ! i) = ((r + n) div n) * i" if i: "i < n" for i
  proof (cases "numPartitions = 1")
    case True
    then have "n = 1"
      by (simp add: n_def)
    with i have "i = 0"
      by simp
    then show ?thesis
      using i by (simp add: nth f_def)
  next
    case False
    with nov have sum: "r + n < 2 ^ 32"
      by simp
    have e: "unat (divSize * of_nat i) = ((r + n) div n) * i"
      unfolding divSize_def r_def n_def
      using np sum i by (intro divSize_exact) (simp_all add: r_def n_def)
    have "((r + n) div n) * i \<le> ((r + n) div n) * (n - 1)"
      using i by (intro mult_le_mono2) simp
    with top have "unat (divSize * of_nat i) < 2 ^ LENGTH('i)"
      using e by linarith
    then show ?thesis
      using i e by (simp add: nth f_def unat_ucast_small)
  qed
  show "\<exists>bs. calcRowPartitionBoundaries m numPartitions = Ok bs
      \<and> length bs = n + 1
      \<and> (\<forall>i < n. unat (bs ! i) = ((r + n) div n) * i)
      \<and> unat (bs ! n) = r"
    using eq len entry last by blast
next
  assume "dense md0 3 = Some (Ok D)"
  then have "rows (m_metadata D) = 3"
    by (simp add: dense_metadata)
  then show "calcRowPartitionBoundaries D 3 = Ok [0, 2, 4, 3]"
    by (simp add: calc_closed upt_rec)
qed

theorem calcRowPartitionBoundaries_formula_witness:
  "1 \<le> (3 :: uint)
   \<and> ((3 :: uint) = 1 \<or> unat (rows (m_metadata dense3)) + unat (3 :: uint) < 2 ^ 32)
   \<and> unat (rows (m_metadata dense3)) < 2 ^ LENGTH(32)
   \<and> ((unat (rows (m_metadata dense3)) + unat (3 :: uint)) div unat (3 :: uint))
        * (unat (3 :: uint) - 1) < 2 ^ LENGTH(32)
   \<and> dense fresh_md 3 = Some (Ok dense3)
   \<and> calcRowPartitionBoundaries dense3 3 = Ok [0, 2, 4, 3]
   \<and> (\<exists>bs. calcRowPartitionBoundaries dense3 3 = Ok bs \<and> length bs = 4
         \<and> unat (bs ! 0) = 0 \<and> unat (bs ! 1) = 2 \<and> unat (bs ! 2) = 4 \<and> unat (bs ! 3) = 3)"
proof -
  have r: "rows (m_metadata dense3) = 3"
    by (simp add: dense3_def)
  have h: "1 \<le> (3 :: uint)
      \<and> ((3 :: uint) = 1 \<or> unat (rows (m_metadata dense3)) + unat (3 :: uint) < 2 ^ 32)
      \<and> unat (rows (m_metadata dense3)) < 2 ^ LENGTH(32)
      \<and> ((unat (rows (m_metadata dense3)) + unat (3 :: uint)) div unat (3 :: uint))
           * (unat (3 :: uint) - 1) < 2 ^ LENGTH(32)"
    by (simp add: r)
  note t = calcRowPartitionBoundaries_formula
    [where numPartitions = 3 and m = dense3 and D = dense3 and ?md0.0 = fresh_md]
  from t [THEN conjunct1, rule_format, OF h] obtain bs where
    bs: "calcRowPartitionBoundaries dense3 3 = Ok bs"
      "length bs = unat (3 :: uint) + 1"
      "\<forall>i < unat (3 :: uint). unat (bs ! i)
           = ((unat (rows (m_metadata dense3)) + unat (3 :: uint)) div unat (3 :: uint)) * i"
      "unat (bs ! unat (3 :: uint)) = unat (rows (m_metadata dense3))"
    by blast
  have e: "unat (bs ! 0) = 0 \<and> unat (bs ! 1) = 2 \<and> unat (bs ! 2) = 4 \<and> unat (bs ! 3) = 3"
    using bs(3) [rule_format, of 0] bs(3) [rule_format, of 1] bs(3) [rule_format, of 2] bs(4)
    by (simp add: r)
  have c: "calcRowPartitionBoundaries dense3 3 = Ok [0, 2, 4, 3]"
    using t [THEN conjunct2, rule_format, OF dense_fresh_3] .
  show ?thesis
    using bs(1,2) e c h by (simp add: dense_fresh_3)
qed

text \<open>
  Counterexample to claim C1 as stated, for every matrix and every \<open>numPartitions \<ge> 1\<close>.
  With an 8-bit \<open>SpMVInd\<close>, \<open>eye(255)\<close> returns a matrix with 255 rows; for 255 partitions
  the chunk size is 2 and entry 128 is 256 converted to \<open>SpMVInd\<close>, which is 0. With a
  32-bit \<open>SpMVInd\<close>, \<open>eye(4294967294)\<close> returns a matrix with \<open>2 ^ 32 - 2\<close> rows; for 2
  partitions \<open>rows + numPartitions\<close> wraps around to 0, the chunk size is 0 instead of
  \<open>2 ^ 31\<close>, and the boundaries are \<open>[0, 0, 4294967294]\<close>.
\<close>

theorem calcRowPartitionBoundaries_overflow_counterexample:
  "1 \<le> (255 :: uint)
   \<and> (\<exists>(m :: (8 word, 32 word) CSR) bs.
         eye fresh_md 255 = Some (Ok m)
         \<and> unat (rows (m_metadata m)) = 255
         \<and> calcRowPartitionBoundaries m 255 = Ok bs
         \<and> unat (bs ! 128) = 0
         \<and> ((unat (rows (m_metadata m)) + unat (255 :: uint)) div unat (255 :: uint)) * 128 = 256)
   \<and> 1 \<le> (2 :: uint)
   \<and> (\<exists>(m :: (32 word, 32 word) CSR) bs.
         eye fresh_md 4294967294 = Some (Ok m)
         \<and> unat (rows (m_metadata m)) = 4294967294
         \<and> calcRowPartitionBoundaries m 2 = Ok bs
         \<and> map unat bs = [0, 0, 4294967294]
         \<and> ((unat (rows (m_metadata m)) + unat (2 :: uint)) div unat (2 :: uint)) * 1
             = 2147483648)"
proof -
  have narrow: "\<exists>(m :: (8 word, 32 word) CSR) bs.
         eye fresh_md 255 = Some (Ok m)
         \<and> unat (rows (m_metadata m)) = 255
         \<and> calcRowPartitionBoundaries m 255 = Ok bs
         \<and> unat (bs ! 128) = 0
         \<and> ((unat (rows (m_metadata m)) + unat (255 :: uint)) div unat (255 :: uint)) * 128 = 256"
  proof -
    have "\<exists>m :: (8 word, 32 word) CSR. eye fresh_md 255 = Some (Ok m)"
      by (subst eye_closed) simp_all
    then obtain m :: "(8 word, 32 word) CSR" where m: "eye fresh_md 255 = Some (Ok m)"
      by blast
    have r: "rows (m_metadata m) = 255"
      using eye_metadata [OF m] by simp
    define bs :: "8 word list" where
      "bs = map (\<lambda>k. ucast ((2 :: uint) * of_nat k)) [0..<255] @ [255]"
    have c: "calcRowPartitionBoundaries m 255 = Ok bs"
      by (simp add: calc_closed r bs_def)
    have "bs ! 128 = ucast ((2 :: uint) * of_nat 128)"
      unfolding bs_def by (simp add: nth_append del: upt_Suc)
    then have z: "unat (bs ! 128) = 0"
      by simp
    show ?thesis
      using m c z by (auto simp: r)
  qed
  have wide: "\<exists>(m :: (32 word, 32 word) CSR) bs.
         eye fresh_md 4294967294 = Some (Ok m)
         \<and> unat (rows (m_metadata m)) = 4294967294
         \<and> calcRowPartitionBoundaries m 2 = Ok bs
         \<and> map unat bs = [0, 0, 4294967294]
         \<and> ((unat (rows (m_metadata m)) + unat (2 :: uint)) div unat (2 :: uint)) * 1
             = 2147483648"
  proof -
    have "\<exists>m :: (32 word, 32 word) CSR. eye fresh_md 4294967294 = Some (Ok m)"
      by (subst eye_closed) simp_all
    then obtain m :: "(32 word, 32 word) CSR" where m: "eye fresh_md 4294967294 = Some (Ok m)"
      by blast
    have r: "rows (m_metadata m) = 4294967294"
      using eye_metadata [OF m] by simp
    have c: "calcRowPartitionBoundaries m 2 = Ok [0, 0, 4294967294]"
      by (simp add: calc_closed r upt_rec)
    show ?thesis
      using m c by (auto simp: r)
  qed
  from narrow wide show ?thesis
    by simp
qed

section \<open>\<open>eye\<close> builds the identity matrix\<close>

lemma row_entries_unit:
  fixes m :: "('i::len word, 'v) CSR"
  assumes "unat (m_indPtrs m ! r) = r" and "unat (m_indPtrs m ! Suc r) = Suc r"
    and "r < length (m_inds m)" and "r < length (m_nzData m)"
  shows "row_entries m r = [(m_inds m ! r, m_nzData m ! r)]"
proof -
  have "take 1 (drop r (m_inds m)) = [m_inds m ! r]"
    using assms(3) by (simp add: take_Suc_conv_app_nth)
  moreover have "take 1 (drop r (m_nzData m)) = [m_nzData m ! r]"
    using assms(4) by (simp add: take_Suc_conv_app_nth)
  ultimately show ?thesis
    by (simp add: row_entries_def assms(1,2))
qed

text \<open>
  Claim C5, amended. For every \<open>dim \<ge> 1\<close> such that \<open>dim + 1\<close> does not overflow
  \<open>unsigned int\<close> and \<open>dim\<close> is a value of \<open>SpMVInd\<close>, \<open>eye(dim)\<close> returns a matrix that
  is square with \<open>rows = cols = dim\<close> and \<open>nz = dim\<close>; \<open>indPtrs[i] = i\<close> for every \<open>i\<close> in
  \<open>[0, dim]\<close>, \<open>inds[i] = i\<close> and \<open>nzData[i] = 1\<close> for every \<open>i\<close> in \<open>[0, dim)\<close>, and row
  \<open>i\<close> stores exactly one entry, at column \<open>i\<close>, with the value 1.
\<close>

theorem eye_identity:
  fixes dim :: uint
  assumes "1 \<le> dim" and nov: "unat dim + 1 < 2 ^ 32" and fit: "unat dim < 2 ^ LENGTH('i::len)"
  shows "\<exists>m :: ('i word, 'v::len word) CSR. eye md0 dim = Some (Ok m)
    \<and> isSquare m
    \<and> rows (m_metadata m) = dim \<and> cols (m_metadata m) = dim \<and> nz (m_metadata m) = dim
    \<and> length (m_indPtrs m) = unat dim + 1
    \<and> (\<forall>i \<le> unat dim. unat (m_indPtrs m ! i) = i)
    \<and> length (m_inds m) = unat dim
    \<and> (\<forall>i < unat dim. unat (m_inds m ! i) = i)
    \<and> length (m_nzData m) = unat dim
    \<and> (\<forall>i < unat dim. m_nzData m ! i = 1)
    \<and> (\<forall>i < unat dim. row_entries m i = [(of_nat i, 1)])"
proof -
  define m :: "('i word, 'v word) CSR" where "m =
    \<lparr>m_needsDealloc = True,
     m_metadata = md0\<lparr>startingRow := 0, startingCol := 0, cols := dim, rows := dim, nz := dim\<rparr>,
     m_indPtrs = map of_nat [0..<Suc (unat dim)],
     m_inds = map of_nat [0..<unat dim],
     m_nzData = replicate (unat dim) 1,
     m_name = ''eye''\<rparr>"
  have e: "eye md0 dim = Some (Ok m)"
    unfolding m_def using nov fit by (intro eye_closed) simp_all
  have ip: "unat (m_indPtrs m ! i) = i" if "i \<le> unat dim" for i
  proof -
    have "i < 2 ^ LENGTH('i)"
      using that fit by linarith
    moreover have "m_indPtrs m ! i = of_nat i"
      using that unfolding m_def by (simp add: nth_append less_Suc_eq_le del: upt_Suc)
    ultimately show ?thesis
      by (simp add: unat_of_nat_small)
  qed
  have inds: "m_inds m ! i = of_nat i" if "i < unat dim" for i
    using that by (simp add: m_def)
  have uinds: "unat (m_inds m ! i) = i" if "i < unat dim" for i
  proof -
    have "i < 2 ^ LENGTH('i)"
      using that fit by linarith
    then show ?thesis
      using that by (simp add: inds unat_of_nat_small)
  qed
  have nzd: "m_nzData m ! i = 1" if "i < unat dim" for i
    using that by (simp add: m_def)
  have len: "length (m_indPtrs m) = unat dim + 1" "length (m_inds m) = unat dim"
    "length (m_nzData m) = unat dim"
    by (simp_all add: m_def)
  have row: "row_entries m i = [(of_nat i, 1)]" if "i < unat dim" for i
  proof -
    have "row_entries m i = [(m_inds m ! i, m_nzData m ! i)]"
      using that ip [of i] ip [of "Suc i"] len by (intro row_entries_unit) simp_all
    then show ?thesis
      using that by (simp add: inds nzd)
  qed
  have md: "isSquare m" "rows (m_metadata m) = dim" "cols (m_metadata m) = dim"
    "nz (m_metadata m) = dim"
    by (simp_all add: m_def isSquare_def)
  show ?thesis
    using e md len ip uinds nzd row by blast
qed

theorem eye_identity_witness:
  "1 \<le> (3 :: uint) \<and> unat (3 :: uint) + 1 < 2 ^ 32 \<and> unat (3 :: uint) < 2 ^ LENGTH(32)
   \<and> (\<exists>m :: (32 word, 32 word) CSR. eye fresh_md 3 = Some (Ok m) \<and> isSquare m
         \<and> nz (m_metadata m) = 3 \<and> unat (m_indPtrs m ! 3) = 3 \<and> unat (m_inds m ! 2) = 2
         \<and> m_nzData m ! 2 = 1 \<and> row_entries m 2 = [(2, 1)])"
proof -
  have h: "1 \<le> (3 :: uint)" "unat (3 :: uint) + 1 < 2 ^ 32" "unat (3 :: uint) < 2 ^ LENGTH(32)"
    by simp_all
  from eye_identity [OF h, of fresh_md, where ?'v = 32]
  obtain m :: "(32 word, 32 word) CSR" where m: "eye fresh_md 3 = Some (Ok m)" "isSquare m"
    "nz (m_metadata m) = 3" "\<forall>i \<le> unat (3 :: uint). unat (m_indPtrs m ! i) = i"
    "\<forall>i < unat (3 :: uint). unat (m_inds m ! i) = i"
    "\<forall>i < unat (3 :: uint). m_nzData m ! i = 1"
    "\<forall>i < unat (3 :: uint). row_entries m i = [(of_nat i, 1)]"
    by blast
  have "unat (m_indPtrs m ! 3) = 3" "unat (m_inds m ! 2) = 2" "m_nzData m ! 2 = 1"
    "row_entries m 2 = [(2, 1)]"
    using m(4) [rule_format, of 3] m(5) [rule_format, of 2] m(6) [rule_format, of 2]
      m(7) [rule_format, of 2] by simp_all
  with m(1-3) h show ?thesis
    by blast
qed

text \<open>
  Counterexample to claim C5 as stated, for every \<open>dim \<ge> 1\<close>. It fails at \<open>dim = 2 ^ 32 - 1\<close>: \<open>dim+1\<close> is 0, the
  array of index pointers has no element, and the first turn of the loop writes outside
  it. No matrix is returned. With a 16-bit \<open>SpMVInd\<close> it fails at \<open>dim = 65536\<close>: the counter
  wraps around before it reaches \<open>dim\<close>, and the loop has no exit.
\<close>

theorem eye_every_dim_counterexample:
  "1 \<le> (4294967295 :: uint)
   \<and> returned (eye fresh_md 4294967295 :: (32 word, 32 word) CSR outcome option) = None
   \<and> 1 \<le> (65536 :: uint)
   \<and> returned (eye fresh_md 65536 :: (16 word, 32 word) CSR outcome option) = None"
proof -
  have max: "(4294967295 :: uint) = - 1"
    by simp
  have "(eye fresh_md 4294967295 :: (32 word, 32 word) CSR outcome option) = Some Undefined"
    by (subst max) (rule eye_undefined_at_max)
  then have wide: "returned (eye fresh_md 4294967295 :: (32 word, 32 word) CSR outcome option)
      = None"
    by (simp add: returned_def)
  have narrow: "returned (eye fresh_md 65536 :: (16 word, 32 word) CSR outcome option) = None"
  proof (rule ccontr)
    assume "returned (eye fresh_md 65536 :: (16 word, 32 word) CSR outcome option) \<noteq> None"
    then obtain m where "(eye fresh_md 65536 :: (16 word, 32 word) CSR outcome option)
        = Some (Ok m)"
      unfolding returned_Some by blast
    from eye_ok_bounds [OF this] show False
      by simp
  qed
  from wide narrow show ?thesis
    by simp
qed

section \<open>\<open>dense\<close> builds the dense matrix\<close>

lemma row_entries_slice:
  fixes m :: "('i::len word, 'v) CSR"
  assumes "unat (m_indPtrs m ! r) = r * n" and "unat (m_indPtrs m ! Suc r) = Suc r * n"
    and "m_inds m = map f [0..<N]" and "m_nzData m = map g [0..<N]" and "Suc r * n \<le> N"
  shows "row_entries m r = map (\<lambda>c. (f (r * n + c), g (r * n + c))) [0..<n]"
proof -
  have "take n (drop (r * n) (map h [0..<N])) = map (\<lambda>c. h (r * n + c)) [0..<n]" for h :: "nat \<Rightarrow> 'x"
  proof (rule nth_equalityI)
    show "length (take n (drop (r * n) (map h [0..<N]))) = length (map (\<lambda>c. h (r * n + c)) [0..<n])"
      using assms(5) by simp
  next
    fix i assume "i < length (take n (drop (r * n) (map h [0..<N])))"
    then have "i < n" "r * n + i < N"
      using assms(5) by simp_all
    then show "take n (drop (r * n) (map h [0..<N])) ! i = map (\<lambda>c. h (r * n + c)) [0..<n] ! i"
      by simp
  qed
  then have "take n (drop (r * n) (m_inds m)) = map (\<lambda>c. f (r * n + c)) [0..<n]"
    and "take n (drop (r * n) (m_nzData m)) = map (\<lambda>c. g (r * n + c)) [0..<n]"
    by (simp_all add: assms(3,4))
  then show ?thesis
    by (simp add: row_entries_def assms(1,2) Let_def zip_map_map zip_same_conv_map)
qed

lemma dense_wrapped:
  fixes dim :: uint
  assumes z: "dim * dim = 0" and nov: "Suc (unat dim) < 2 ^ 32" and fit: "unat dim < 2 ^ LENGTH('i::len)"
  shows "returned (dense md0 dim :: ('i word, 'v::len word) CSR outcome option) =
    Some \<lparr>m_needsDealloc = True,
          m_metadata = md0\<lparr>startingRow := 0, startingCol := 0, cols := dim, rows := dim,
                          nz := 0\<rparr>,
          m_indPtrs = map (\<lambda>k. of_nat (k * unat dim)) [0..<unat dim] @ [0],
          m_inds = [], m_nzData = [], m_name = ''dense''\<rparr>"
proof -
  have "unat (dim * dim) < 2 ^ LENGTH('i)"
    by (simp add: z)
  from dense_closed [OF nov fit this, of md0, where ?'v = 'v] show ?thesis
    by (simp add: returned_def z)
qed

text \<open>
  Claim C6, amended. For every \<open>dim \<ge> 1\<close> such that \<open>dim * dim\<close> overflows neither
  \<open>unsigned int\<close> nor \<open>SpMVInd\<close>, \<open>dense(dim)\<close> returns a matrix with \<open>rows = cols = dim\<close>,
  \<open>nz = dim * dim\<close>, \<open>indPtrs[i] = i * dim\<close> for \<open>i\<close> in \<open>[0, dim]\<close>, \<open>inds[k] = k mod dim\<close>
  and \<open>nzData[k] = k + 1\<close> for \<open>k\<close> below \<open>dim * dim\<close> (\<open>k + 1\<close> converted to \<open>SpMVVal\<close>, the
  number itself when \<open>dim * dim\<close> is a value of \<open>SpMVVal\<close>), so that row \<open>r\<close> holds exactly
  the columns \<open>0 .. dim - 1\<close> with the values \<open>r * dim + 1 .. r * dim + dim\<close>. The matrix that \<open>dense(3)\<close> returns for 32-bit indices
  and values has \<open>indPtrs = [0,3,6,9]\<close>, \<open>inds = [0,1,2,0,1,2,0,1,2]\<close> and
  \<open>nzData = [1,2,3,4,5,6,7,8,9]\<close>.
\<close>

theorem dense_rows:
  fixes dim :: uint
  assumes d1: "1 \<le> dim" and nov: "unat dim * unat dim < 2 ^ 32"
    and fit: "unat dim * unat dim < 2 ^ LENGTH('i::len)"
  shows "(\<exists>m :: ('i word, 'v::len word) CSR. dense md0 dim = Some (Ok m)
      \<and> rows (m_metadata m) = dim \<and> cols (m_metadata m) = dim
      \<and> unat (nz (m_metadata m)) = unat dim * unat dim
      \<and> length (m_indPtrs m) = unat dim + 1
      \<and> (\<forall>i \<le> unat dim. unat (m_indPtrs m ! i) = i * unat dim)
      \<and> length (m_inds m) = unat dim * unat dim
      \<and> (\<forall>k < unat dim * unat dim. unat (m_inds m ! k) = k mod unat dim)
      \<and> length (m_nzData m) = unat dim * unat dim
      \<and> (\<forall>k < unat dim * unat dim. m_nzData m ! k = of_nat (k + 1))
      \<and> (unat dim * unat dim < 2 ^ LENGTH('v) \<longrightarrow>
           (\<forall>k < unat dim * unat dim. unat (m_nzData m ! k) = k + 1))
      \<and> (\<forall>r < unat dim. row_entries m r
            = map (\<lambda>c. (of_nat c, of_nat (r * unat dim + c + 1))) [0..<unat dim]))
    \<and> (\<forall>m3 :: (32 word, 32 word) CSR. dense md0 3 = Some (Ok m3) \<longrightarrow>
          m_indPtrs m3 = [0, 3, 6, 9] \<and> m_inds m3 = [0, 1, 2, 0, 1, 2, 0, 1, 2]
          \<and> m_nzData m3 = [1, 2, 3, 4, 5, 6, 7, 8, 9])"
proof (rule conjI)
  let ?n = "unat dim"
  have n0: "0 < ?n"
    using d1 by (simp add: word_le_nat_alt)
  have sq: "unat (dim * dim) = ?n * ?n"
    using nov by (simp add: unat_mult_lem [THEN iffD1])
  have le: "?n \<le> ?n * ?n"
    using n0 by simp
  have s32: "Suc ?n < 2 ^ 32"
  proof (cases "?n = 1")
    case True
    then show ?thesis
      by simp
  next
    case False
    with n0 have "2 * ?n \<le> ?n * ?n"
      by (intro mult_le_mono1) simp
    with n0 nov show ?thesis
      by linarith
  qed
  have fit1: "?n < 2 ^ LENGTH('i)"
    using le fit by linarith
  define m :: "('i word, 'v word) CSR" where "m =
    \<lparr>m_needsDealloc = True,
     m_metadata = md0\<lparr>startingRow := 0, startingCol := 0, cols := dim, rows := dim,
                     nz := dim * dim\<rparr>,
     m_indPtrs = map (\<lambda>k. of_nat (k * ?n)) [0..<?n] @ [ucast (dim * dim)],
     m_inds = map (\<lambda>k. of_nat (k mod ?n)) [0..<?n * ?n],
     m_nzData = map (\<lambda>k. of_nat (Suc k)) [0..<?n * ?n],
     m_name = ''dense''\<rparr>"
  have e: "dense md0 dim = Some (Ok m)"
    unfolding m_def sq [symmetric] using s32 fit1 fit sq by (intro dense_closed) simp_all
  have ipv: "m_indPtrs m ! i = of_nat (i * ?n)" if "i \<le> ?n" for i
  proof (cases "i < ?n")
    case True
    then show ?thesis
      by (simp add: m_def nth_append)
  next
    case False
    with that have "i = ?n"
      by simp
    moreover have "ucast (dim * dim) = (of_nat (?n * ?n) :: 'i word)"
      by (simp add: sq [symmetric])
    ultimately show ?thesis
      by (simp add: m_def nth_append)
  qed
  have ip: "unat (m_indPtrs m ! i) = i * ?n" if "i \<le> ?n" for i
  proof -
    have "i * ?n \<le> ?n * ?n"
      using that by simp
    then have "i * ?n < 2 ^ LENGTH('i)"
      using fit by linarith
    then have "unat (of_nat (i * ?n) :: 'i word) = i * ?n"
      by (rule unat_of_nat_small)
    then show ?thesis
      by (simp only: ipv [OF that])
  qed
  have inds: "unat (m_inds m ! k) = k mod ?n" if "k < ?n * ?n" for k
  proof -
    have "k mod ?n < ?n"
      using n0 by simp
    then have "k mod ?n < 2 ^ LENGTH('i)"
      using fit1 by linarith
    then show ?thesis
      using that by (simp add: m_def unat_of_nat_small)
  qed
  have nzd: "m_nzData m ! k = of_nat (k + 1)" if "k < ?n * ?n" for k
    using that by (simp add: m_def)
  have nzu: "unat (m_nzData m ! k) = k + 1" if "?n * ?n < 2 ^ LENGTH('v)" "k < ?n * ?n" for k
  proof -
    have "k + 1 < 2 ^ LENGTH('v)"
      using that by linarith
    then have "unat (of_nat (k + 1) :: 'v word) = k + 1"
      by (rule unat_of_nat_small)
    then show ?thesis
      by (simp only: nzd [OF that(2)])
  qed
  have len: "length (m_indPtrs m) = ?n + 1" "length (m_inds m) = ?n * ?n"
    "length (m_nzData m) = ?n * ?n"
    by (simp_all add: m_def)
  have row: "row_entries m r = map (\<lambda>c. (of_nat c, of_nat (r * ?n + c + 1))) [0..<?n]"
    if "r < ?n" for r
  proof -
    have "Suc r * ?n \<le> ?n * ?n"
      using that by (intro mult_le_mono1) simp
    then have "row_entries m r
        = map (\<lambda>c. (of_nat ((r * ?n + c) mod ?n), of_nat (Suc (r * ?n + c)))) [0..<?n]"
      using that ip [of r] ip [of "Suc r"]
      by (intro row_entries_slice [where N = "?n * ?n"]) (simp_all add: m_def)
    then show ?thesis
      by simp
  qed
  have md: "rows (m_metadata m) = dim" "cols (m_metadata m) = dim"
    "unat (nz (m_metadata m)) = ?n * ?n"
    by (simp_all add: m_def sq)
  show "\<exists>m :: ('i word, 'v word) CSR. dense md0 dim = Some (Ok m)
      \<and> rows (m_metadata m) = dim \<and> cols (m_metadata m) = dim
      \<and> unat (nz (m_metadata m)) = unat dim * unat dim
      \<and> length (m_indPtrs m) = unat dim + 1
      \<and> (\<forall>i \<le> unat dim. unat (m_indPtrs m ! i) = i * unat dim)
      \<and> length (m_inds m) = unat dim * unat dim
      \<and> (\<forall>k < unat dim * unat dim. unat (m_inds m ! k) = k mod unat dim)
      \<and> length (m_nzData m) = unat dim * unat dim
      \<and> (\<forall>k < unat dim * unat dim. m_nzData m ! k = of_nat (k + 1))
      \<and> (unat dim * unat dim < 2 ^ LENGTH('v) \<longrightarrow>
           (\<forall>k < unat dim * unat dim. unat (m_nzData m ! k) = k + 1))
      \<and> (\<forall>r < unat dim. row_entries m r
            = map (\<lambda>c. (of_nat c, of_nat (r * unat dim + c + 1))) [0..<unat dim])"
    using e md len ip inds nzd nzu row by blast
next
  show "\<forall>m3 :: (32 word, 32 word) CSR. dense md0 3 = Some (Ok m3) \<longrightarrow>
      m_indPtrs m3 = [0, 3, 6, 9] \<and> m_inds m3 = [0, 1, 2, 0, 1, 2, 0, 1, 2]
      \<and> m_nzData m3 = [1, 2, 3, 4, 5, 6, 7, 8, 9]"
    by (auto simp: dense_3)
qed

theorem dense_rows_witness:
  "1 \<le> (3 :: uint) \<and> unat (3 :: uint) * unat (3 :: uint) < 2 ^ 32
   \<and> unat (3 :: uint) * unat (3 :: uint) < 2 ^ LENGTH(32)
   \<and> dense fresh_md 3 = Some (Ok dense3)
   \<and> m_indPtrs dense3 = [0, 3, 6, 9] \<and> m_inds dense3 = [0, 1, 2, 0, 1, 2, 0, 1, 2]
   \<and> m_nzData dense3 = [1, 2, 3, 4, 5, 6, 7, 8, 9]
   \<and> (\<exists>m :: (32 word, 32 word) CSR. dense fresh_md 3 = Some (Ok m)
         \<and> unat (nz (m_metadata m)) = 9 \<and> unat (m_indPtrs m ! 2) = 6
         \<and> unat (m_inds m ! 7) = 1 \<and> m_nzData m ! 7 = 8 \<and> unat (m_nzData m ! 7) = 8
         \<and> row_entries m 1 = [(0, 4), (1, 5), (2, 6)])"
proof -
  have h: "1 \<le> (3 :: uint)" "unat (3 :: uint) * unat (3 :: uint) < 2 ^ 32"
    "unat (3 :: uint) * unat (3 :: uint) < 2 ^ LENGTH(32)"
    by simp_all
  note t = dense_rows [OF h, of fresh_md, where ?'v = 32]
  from t [THEN conjunct1]
  obtain m :: "(32 word, 32 word) CSR" where m: "dense fresh_md 3 = Some (Ok m)"
    "unat (nz (m_metadata m)) = unat (3 :: uint) * unat (3 :: uint)"
    "\<forall>i \<le> unat (3 :: uint). unat (m_indPtrs m ! i) = i * unat (3 :: uint)"
    "\<forall>k < unat (3 :: uint) * unat (3 :: uint). unat (m_inds m ! k) = k mod unat (3 :: uint)"
    "\<forall>k < unat (3 :: uint) * unat (3 :: uint). m_nzData m ! k = of_nat (k + 1)"
    "unat (3 :: uint) * unat (3 :: uint) < 2 ^ LENGTH(32) \<longrightarrow>
       (\<forall>k < unat (3 :: uint) * unat (3 :: uint). unat (m_nzData m ! k) = k + 1)"
    "\<forall>r < unat (3 :: uint). row_entries m r
       = map (\<lambda>c. (of_nat c, of_nat (r * unat (3 :: uint) + c + 1))) [0..<unat (3 :: uint)]"
    by blast
  have "unat (nz (m_metadata m)) = 9" "unat (m_indPtrs m ! 2) = 6" "unat (m_inds m ! 7) = 1"
    "m_nzData m ! 7 = 8" "unat (m_nzData m ! 7) = 8"
    "row_entries m 1 = [(0, 4), (1, 5), (2, 6)]"
    using m(2) m(3) [rule_format, of 2] m(4) [rule_format, of 7] m(5) [rule_format, of 7]
      m(6) [rule_format, OF h(3), of 7] m(7) [rule_format, of 1] by (simp_all add: upt_rec)
  moreover have "m_indPtrs dense3 = [0, 3, 6, 9] \<and> m_inds dense3 = [0, 1, 2, 0, 1, 2, 0, 1, 2]
      \<and> m_nzData dense3 = [1, 2, 3, 4, 5, 6, 7, 8, 9]"
    using t [THEN conjunct2, rule_format, OF dense_fresh_3] .
  ultimately show ?thesis
    using m(1) h dense_fresh_3 by blast
qed

text \<open>
  Counterexample to claim C6 as stated, for every \<open>dim \<ge> 1\<close>. It fails at \<open>dim = 65536\<close>: \<open>dim*dim\<close> wraps around
  to 0, so \<open>nz\<close> is 0, no column index is stored and row 0 has no entry. With a 16-bit
  \<open>SpMVInd\<close> it fails at \<open>dim = 256\<close>: the counter of the second loop wraps around before
  it reaches \<open>dim*dim\<close>, and no matrix is returned.
\<close>

theorem dense_every_dim_counterexample:
  "1 \<le> (65536 :: uint)
   \<and> map_option getNNZ (returned (dense fresh_md 65536 :: (32 word, 32 word) CSR outcome option))
       = Some 0
   \<and> map_option m_inds (returned (dense fresh_md 65536 :: (32 word, 32 word) CSR outcome option))
       = Some []
   \<and> map_option (\<lambda>m. row_entries m 0)
         (returned (dense fresh_md 65536 :: (32 word, 32 word) CSR outcome option)) = Some []
   \<and> 1 \<le> (256 :: uint)
   \<and> returned (dense fresh_md 256 :: (16 word, 32 word) CSR outcome option) = None"
proof -
  have "(65536 :: uint) * 65536 = 0" "Suc (unat (65536 :: uint)) < 2 ^ 32"
    "unat (65536 :: uint) < 2 ^ LENGTH(32)"
    by simp_all
  from dense_wrapped [OF this, of fresh_md, where ?'v = 32]
  have wide: "map_option getNNZ
        (returned (dense fresh_md 65536 :: (32 word, 32 word) CSR outcome option)) = Some 0
      \<and> map_option m_inds
        (returned (dense fresh_md 65536 :: (32 word, 32 word) CSR outcome option)) = Some []
      \<and> map_option (\<lambda>m. row_entries m 0)
        (returned (dense fresh_md 65536 :: (32 word, 32 word) CSR outcome option)) = Some []"
    by (simp add: getNNZ_def row_entries_def)
  have narrow: "returned (dense fresh_md 256 :: (16 word, 32 word) CSR outcome option) = None"
  proof (rule ccontr)
    assume "returned (dense fresh_md 256 :: (16 word, 32 word) CSR outcome option) \<noteq> None"
    then obtain m where "(dense fresh_md 256 :: (16 word, 32 word) CSR outcome option)
        = Some (Ok m)"
      unfolding returned_Some by blast
    from dense_ok_bounds [OF this] show False
      by simp
  qed
  from wide narrow show ?thesis
    by simp
qed

section \<open>\<open>load\<close>: the checks on the store\<close>

lemma genNZData_loop_no_throw: "genNZData_loop nnz i a \<noteq> Throw e"
proof (induction nnz i a rule: genNZData_loop.induct)
  case (1 nnz i a)
  then show ?case
    by (subst genNZData_loop.simps) simp
qed

text \<open>
  Claim C7. When the \<open>meta\<close> component declares a \<open>bytesPerInd\<close> other than the size of
  \<open>SpMVInd\<close>, \<open>load\<close> throws the index-width literal, a \<open>TypeMismatchError\<close>, and returns
  no matrix, whatever \<open>genNZData\<close> is. When the index width agrees and \<open>bytesPerVal\<close> is
  not the size of \<open>SpMVVal\<close>, \<open>load\<close> fails with a \<open>TypeMismatchError\<close> exactly when
  \<open>genNZData\<close> is false: \<open>genNZData\<close> waives the value-width check and never the
  index-width check.
\<close>

theorem load_width_checks:
  fixes readMatrixData :: "('i::len word, 'v::len word) store"
  assumes meta: "readMatrixData name ''meta'' = Some (MetaBuf md)"
  shows "(unat (bytesPerInd md) \<noteq> LENGTH('i) div 8 \<longrightarrow>
            load readMatrixData name genNZData = Throw ''bytesPerInd mismatch in CSR::load''
            \<and> TypeMismatchError (load readMatrixData name genNZData))
       \<and> (unat (bytesPerInd md) = LENGTH('i) div 8 \<and> unat (bytesPerVal md) \<noteq> LENGTH('v) div 8 \<longrightarrow>
            (TypeMismatchError (load readMatrixData name genNZData) \<longleftrightarrow> \<not> genNZData))"
proof (intro conjI impI)
  assume "unat (bytesPerInd md) \<noteq> LENGTH('i) div 8"
  then show l: "load readMatrixData name genNZData = Throw ''bytesPerInd mismatch in CSR::load''"
    by (simp add: load_def meta)
  show "TypeMismatchError (load readMatrixData name genNZData)"
    by (simp add: l TypeMismatchError_def)
next
  assume a: "unat (bytesPerInd md) = LENGTH('i) div 8 \<and> unat (bytesPerVal md) \<noteq> LENGTH('v) div 8"
  show "TypeMismatchError (load readMatrixData name genNZData) \<longleftrightarrow> \<not> genNZData"
  proof (cases genNZData)
    case False
    with a have "load readMatrixData name genNZData
        = Throw ''bytesPerVal mismatch in CSR::load -- consider using genNZData''"
      by (simp add: load_def meta)
    with False show ?thesis
      by (simp add: TypeMismatchError_def)
  next
    case True
    with a have "\<not> TypeMismatchError (load readMatrixData name genNZData)"
      by (auto simp: load_def meta TypeMismatchError_def Let_def genNZData_loop_no_throw
          split: option.splits buffer.splits outcome.splits)
    with True show ?thesis
      by simp
  qed
qed

theorem load_width_checks_witness:
  "dense3_store (dense3_md 8 4) ''dense3'' ''meta'' = Some (MetaBuf (dense3_md 8 4))
   \<and> unat (bytesPerInd (dense3_md 8 4)) \<noteq> LENGTH(32) div 8
   \<and> load (dense3_store (dense3_md 8 4)) ''dense3'' False
       = Throw ''bytesPerInd mismatch in CSR::load''
   \<and> load (dense3_store (dense3_md 8 4)) ''dense3'' True
       = Throw ''bytesPerInd mismatch in CSR::load''
   \<and> dense3_store (dense3_md 4 8) ''dense3'' ''meta'' = Some (MetaBuf (dense3_md 4 8))
   \<and> unat (bytesPerInd (dense3_md 4 8)) = LENGTH(32) div 8
   \<and> unat (bytesPerVal (dense3_md 4 8)) \<noteq> LENGTH(32) div 8
   \<and> TypeMismatchError (load (dense3_store (dense3_md 4 8)) ''dense3'' False)
   \<and> \<not> TypeMismatchError (load (dense3_store (dense3_md 4 8)) ''dense3'' True)"
proof -
  have m1: "dense3_store (dense3_md 8 4) ''dense3'' ''meta'' = Some (MetaBuf (dense3_md 8 4))"
    and m2: "dense3_store (dense3_md 4 8) ''dense3'' ''meta'' = Some (MetaBuf (dense3_md 4 8))"
    by (simp_all add: dense3_store_def)
  have w1: "unat (bytesPerInd (dense3_md 8 4)) \<noteq> LENGTH(32) div 8"
    and w2: "unat (bytesPerInd (dense3_md 4 8)) = LENGTH(32) div 8
      \<and> unat (bytesPerVal (dense3_md 4 8)) \<noteq> LENGTH(32) div 8"
    by (simp_all add: dense3_md_def)
  note a = load_width_checks [where readMatrixData = "dense3_store (dense3_md 8 4)"
      and name = "''dense3''" and md = "dense3_md 8 4", OF m1, THEN conjunct1, rule_format, OF w1]
  note b = load_width_checks [where readMatrixData = "dense3_store (dense3_md 4 8)"
      and name = "''dense3''" and md = "dense3_md 4 8", OF m2, THEN conjunct2, rule_format, OF w2]
  show ?thesis
    using m1 m2 w1 w2 a [of False] a [of True] b [of False] b [of True] by simp
qed

text \<open>Past the width checks, an absent \<open>indptr\<close>, \<open>inds\<close> or (without \<open>genNZData\<close>)
  \<open>nzdata\<close> component makes \<open>load\<close> throw the literal of its null check.\<close>

lemma load_null_checks:
  fixes readMatrixData :: "('i::len word, 'v::len word) store"
  assumes "readMatrixData name ''meta'' = Some (MetaBuf md)"
    and "unat (bytesPerInd md) = LENGTH('i) div 8"
    and "unat (bytesPerVal md) = LENGTH('v) div 8 \<or> genNZData"
  shows "readMatrixData name ''indptr'' = None \<Longrightarrow>
      load readMatrixData name genNZData = Throw ''could not load indptr in CSR::load''"
    and "readMatrixData name ''indptr'' = Some (IndBuf indPtrs) \<Longrightarrow>
      readMatrixData name ''inds'' = None \<Longrightarrow>
      load readMatrixData name genNZData = Throw ''could not load inds in CSR::load''"
    and "readMatrixData name ''indptr'' = Some (IndBuf indPtrs) \<Longrightarrow>
      readMatrixData name ''inds'' = Some (IndBuf inds) \<Longrightarrow> \<not> genNZData \<Longrightarrow>
      readMatrixData name ''nzdata'' = None \<Longrightarrow>
      load readMatrixData name genNZData = Throw ''could not load nzdata in CSR::load''"
  using assms by (auto simp: load_def)

text \<open>
  Claim C8 says that an absent \<open>meta\<close> component gives a \<open>FormatError\<close> as the other three
  components do. \<open>load\<close> has no null check on \<open>md\<close>: it reads \<open>md->bytesPerInd\<close> through
  the null pointer. On a store that knows no matrix the call is undefined, with and
  without \<open>genNZData\<close>, and throws nothing.
\<close>

theorem load_absent_meta:
  "load empty_store ''dense3'' False = Undefined \<and> load empty_store ''dense3'' True = Undefined
   \<and> \<not> FormatError (load empty_store ''dense3'' False)
   \<and> \<not> FormatError (load empty_store ''dense3'' True)"
  by (simp add: load_def empty_store_def FormatError_def)

section \<open>The metadata fields the constructors leave unassigned\<close>

lemma partition_child_widths:
  "partition_child parent boundaries i = Ok child \<Longrightarrow>
   bytesPerInd (m_metadata child) = bytesPerInd (m_metadata parent)
   \<and> bytesPerVal (m_metadata child) = bytesPerVal (m_metadata parent)"
  by (auto simp: partition_child_def Let_def split: if_splits outcome.splits)

lemma rowPartitionedView_loop_child_index:
  "rowPartitionedView_loop parent boundaries numPartitions i res = Ok children \<Longrightarrow>
   child \<in> set children \<Longrightarrow>
   child \<in> set res
   \<or> (\<exists>j. j < numPartitions \<and> partition_child parent boundaries j = Ok child)"
proof (induction parent boundaries numPartitions i res rule: rowPartitionedView_loop.induct)
  case (1 parent boundaries numPartitions i res)
  show ?case
  proof (cases "i < numPartitions")
    case True
    with "1.prems"(1) obtain c where c: "partition_child parent boundaries i = Ok c"
      and loop: "rowPartitionedView_loop parent boundaries numPartitions (i + 1) (res @ [c])
        = Ok children"
      by (subst (asm) rowPartitionedView_loop.simps) (auto split: outcome.splits)
    from "1.IH" [OF True c loop "1.prems"(2)] c True show ?thesis
      by auto
  next
    case False
    with "1.prems" show ?thesis
      by (subst (asm) rowPartitionedView_loop.simps) simp
  qed
qed

lemma dense3_view: "rowPartitionedView dense3 [0, 2, 3] = Ok dense3_children"
  by code_simp

text \<open>
  Claim C10. \<open>eye(dim)\<close> and \<open>dense(dim)\<close> assign \<open>startingRow\<close>, \<open>startingCol\<close>, \<open>cols\<close>,
  \<open>rows\<close> and \<open>nz\<close> of the fresh metadata struct and nothing else: \<open>bytesPerInd\<close> and
  \<open>bytesPerVal\<close> of the matrix they return are whatever the fresh struct held. Every child
  that \<open>rowPartitionedView\<close> returns has the \<open>bytesPerInd\<close> and \<open>bytesPerVal\<close> of its
  parent.
\<close>

theorem metadata_widths_unassigned:
  "(eye md0 dim = Some (Ok m) \<longrightarrow>
      m_metadata m = md0\<lparr>startingRow := 0, startingCol := 0, cols := dim, rows := dim,
                           nz := dim\<rparr>
      \<and> bytesPerInd (m_metadata m) = bytesPerInd md0
      \<and> bytesPerVal (m_metadata m) = bytesPerVal md0)
   \<and> (dense md0 dim = Some (Ok m') \<longrightarrow>
      m_metadata m' = md0\<lparr>startingRow := 0, startingCol := 0, cols := dim, rows := dim,
                            nz := dim * dim\<rparr>
      \<and> bytesPerInd (m_metadata m') = bytesPerInd md0
      \<and> bytesPerVal (m_metadata m') = bytesPerVal md0)
   \<and> (rowPartitionedView parent boundaries = Ok children \<and> child \<in> set children \<longrightarrow>
      bytesPerInd (m_metadata child) = bytesPerInd (m_metadata parent)
      \<and> bytesPerVal (m_metadata child) = bytesPerVal (m_metadata parent))"
proof (intro conjI impI)
  assume "eye md0 dim = Some (Ok m)"
  then show "m_metadata m = md0\<lparr>startingRow := 0, startingCol := 0, cols := dim, rows := dim,
      nz := dim\<rparr>"
    by (rule eye_metadata)
  then show "bytesPerInd (m_metadata m) = bytesPerInd md0"
    and "bytesPerVal (m_metadata m) = bytesPerVal md0"
    by simp_all
next
  assume "dense md0 dim = Some (Ok m')"
  then show "m_metadata m' = md0\<lparr>startingRow := 0, startingCol := 0, cols := dim, rows := dim,
      nz := dim * dim\<rparr>"
    by (rule dense_metadata)
  then show "bytesPerInd (m_metadata m') = bytesPerInd md0"
    and "bytesPerVal (m_metadata m') = bytesPerVal md0"
    by simp_all
next
  assume "rowPartitionedView parent boundaries = Ok children \<and> child \<in> set children"
  then obtain j where "partition_child parent boundaries j = Ok child"
    unfolding rowPartitionedView_def by (auto dest: rowPartitionedView_loop_child_index)
  then show "bytesPerInd (m_metadata child) = bytesPerInd (m_metadata parent)"
    and "bytesPerVal (m_metadata child) = bytesPerVal (m_metadata parent)"
    by (simp_all add: partition_child_widths)
qed

theorem metadata_widths_unassigned_witness:
  "eye fresh_md 3 = Some (Ok eye3) \<and> dense fresh_md 3 = Some (Ok dense3)
   \<and> rowPartitionedView dense3 [0, 2, 3] = Ok dense3_children
   \<and> dense3_children ! 1 \<in> set dense3_children
   \<and> bytesPerInd (m_metadata eye3) = 77 \<and> bytesPerVal (m_metadata eye3) = 88
   \<and> bytesPerInd (m_metadata dense3) = 77 \<and> bytesPerVal (m_metadata dense3) = 88
   \<and> bytesPerInd (m_metadata (dense3_children ! 1)) = 77
   \<and> bytesPerVal (m_metadata (dense3_children ! 1)) = 88"
proof -
  have c: "rowPartitionedView dense3 [0, 2, 3] = Ok dense3_children
      \<and> dense3_children ! 1 \<in> set dense3_children"
    by (simp add: dense3_view) (simp add: dense3_children_def)
  note t = metadata_widths_unassigned [where ?md0.0 = fresh_md and dim = 3 and m = eye3
      and m' = dense3 and parent = dense3 and boundaries = "[0, 2, 3]"
      and children = dense3_children and child = "dense3_children ! 1"]
  have "bytesPerInd (m_metadata eye3) = bytesPerInd fresh_md
      \<and> bytesPerVal (m_metadata eye3) = bytesPerVal fresh_md"
    using t [THEN conjunct1, rule_format, OF eye_fresh_3] by simp
  moreover have "bytesPerInd (m_metadata dense3) = bytesPerInd fresh_md
      \<and> bytesPerVal (m_metadata dense3) = bytesPerVal fresh_md"
    using t [THEN conjunct2, THEN conjunct1, rule_format, OF dense_fresh_3] by simp
  moreover have "bytesPerInd (m_metadata (dense3_children ! 1)) = bytesPerInd (m_metadata dense3)
      \<and> bytesPerVal (m_metadata (dense3_children ! 1)) = bytesPerVal (m_metadata dense3)"
    using t [THEN conjunct2, THEN conjunct2, rule_format, OF c] .
  ultimately show ?thesis
    using c eye_fresh_3 dense_fresh_3 by (simp add: fresh_md_def)
qed

section \<open>Boundaries that leave the matrix\<close>

lemma calc_zero_rows:
  assumes r: "rows (m_metadata m) = 0" and np: "numPartitions \<noteq> 0"
  shows "calcRowPartitionBoundaries m numPartitions
    = Ok (map of_nat [0..<unat numPartitions] @ [0])"
proof -
  have "0 < unat numPartitions"
    using np by (simp add: unat_gt_0)
  then have "unat (numPartitions div numPartitions) = 1"
    by (simp add: unat_div)
  then have one: "numPartitions div numPartitions = 1"
    by (metis unat_1 word_unat_eq_iff)
  have "ucast (of_nat k :: uint) = (of_nat k :: 'a word)" if "k < unat numPartitions" for k
  proof -
    have "unat numPartitions < 2 ^ LENGTH(32)"
      by (rule unsigned_less)
    with that have "k < 2 ^ LENGTH(32)"
      by linarith
    then have "unat (of_nat k :: uint) = k"
      by (rule unat_of_nat_small)
    moreover have "ucast (of_nat k :: uint) = (of_nat (unat (of_nat k :: uint)) :: 'a word)"
      by simp
    ultimately show ?thesis
      by simp
  qed
  then show ?thesis
    using np by (simp add: calc_closed r one)
qed

text \<open>
  Claim C2 says that on a matrix without rows every boundary is zero. The chunk size
  \<open>(0 + numPartitions) / numPartitions\<close> is 1, so boundary \<open>i\<close> is \<open>i\<close>: with two partitions
  the matrix \<open>eye(0)\<close> gets the boundaries \<open>[0, 1, 0]\<close>.
\<close>

theorem zero_rows_boundaries:
  "eye fresh_md 0 = Some (Ok eye0) \<and> rows (m_metadata eye0) = 0
   \<and> calcRowPartitionBoundaries eye0 2 = Ok [0, 1, 0]"
proof -
  have r: "rows (m_metadata eye0) = 0"
    by (simp add: eye0_def)
  have "calcRowPartitionBoundaries eye0 2 = Ok [0, 1, 0]"
    using calc_zero_rows [OF r, of 2] by (simp add: upt_rec)
  with r eye_fresh_0 show ?thesis
    by simp
qed

text \<open>
  Claim C3 says that the boundaries of \<open>calcRowPartitionBoundaries\<close>, for a number of
  partitions from 1 to \<open>rows\<close>, cut the matrix into children that cover its rows once. For
  \<open>dense(3)\<close> and three partitions the boundaries are \<open>[0, 2, 4, 3]\<close>; the second child would
  end at row 4, and \<open>rowPartitionedView\<close> reads \<open>m_indPtrs[4]\<close>, past the four index pointers
  of the matrix.
\<close>

theorem dense3_partition_undefined:
  "dense fresh_md 3 = Some (Ok dense3) \<and> rows (m_metadata dense3) = 3
   \<and> calcRowPartitionBoundaries dense3 3 = Ok [0, 2, 4, 3]
   \<and> length (m_indPtrs dense3) = 4
   \<and> rowPartitionedView dense3 [0, 2, 4, 3] = Undefined"
proof -
  have "calcRowPartitionBoundaries dense3 3 = Ok [0, 2, 4, 3]"
    by (simp add: calc_closed dense3_def upt_rec)
  moreover have "rowPartitionedView dense3 [0, 2, 4, 3] = Undefined"
    by code_simp
  ultimately show ?thesis
    by (simp add: dense_fresh_3) (simp add: dense3_def)
qed

section \<open>The children of \<open>rowPartitionedView\<close>\<close>

lemma digit_char_of:
  assumes "d < 10"
  shows "char_of (int d + 48) = digit d"
proof -
  have "\<forall>d \<in> {0..<10 :: nat}. char_of (int d + 48) = digit d"
    by code_simp
  with assms show ?thesis
    by simp
qed

lemma itoa_loop_decimal:
  "0 \<le> n \<Longrightarrow> itoa_loop n s = s @ rev (decimal (nat n))"
proof (induction n s rule: itoa_loop.induct)
  case (1 n s)
  have c: "char_of (n mod 10 + 48) = digit (nat n mod 10)"
  proof -
    have "int (nat n mod 10) = int (nat n) mod 10"
      by (simp add: zmod_int)
    then have "n mod 10 = int (nat n mod 10)"
      using "1.prems" by simp
    moreover have "nat n mod 10 < 10"
      by simp
    ultimately show ?thesis
      using digit_char_of [of "nat n mod 10"] by simp
  qed
  show ?case
  proof (cases "n div 10 > 0")
    case True
    then have ge: "\<not> nat n < 10"
      by linarith
    have d: "nat (n div 10) = nat n div 10"
      using "1.prems" by (simp add: nat_div_distrib)
    have "itoa_loop n s = itoa_loop (n div 10) (s @ [char_of (n mod 10 + 48)])"
      using True by (subst itoa_loop.simps) simp
    also have "\<dots> = (s @ [char_of (n mod 10 + 48)]) @ rev (decimal (nat (n div 10)))"
      using True by (intro "1.IH") simp_all
    also have "\<dots> = s @ rev (decimal (nat n))"
      using ge by (subst (2) decimal.simps) (simp add: c d)
    finally show ?thesis .
  next
    case False
    then have lt: "nat n < 10"
      using "1.prems" by linarith
    have "itoa_loop n s = s @ [char_of (n mod 10 + 48)]"
      using False by (subst itoa_loop.simps) simp
    also have "\<dots> = s @ rev (decimal (nat n))"
      using lt by (subst decimal.simps) (simp add: c)
    finally show ?thesis .
  qed
qed

lemma reverse_loop_rev:
  "reverse_loop (int (length a)) (int (length a + length m) - 1) (a @ m @ b) = a @ rev m @ b"
proof (induction m arbitrary: a b rule: length_induct)
  case (1 m)
  show ?case
  proof (cases "length m < 2")
    case True
    then have "m = [] \<or> (\<exists>x. m = [x])"
      by (cases m) (auto simp: length_Suc_conv)
    then show ?thesis
      by (subst reverse_loop.simps) auto
  next
    case False
    then obtain x t where t: "m = x # t" "t \<noteq> []"
      by (cases m) auto
    then obtain m' y where "t = m' @ [y]"
      by (cases t rule: rev_cases) auto
    with t have m: "m = x # m' @ [y]"
      by simp
    have lt: "int (length a) < int (length a + length m) - 1"
      using m by simp
    have swap: "(a @ m @ b)[nat (int (length a)) := (a @ m @ b) ! nat (int (length a + length m) - 1),
        nat (int (length a + length m) - 1) := (a @ m @ b) ! nat (int (length a))]
        = (a @ [y]) @ m' @ (x # b)"
    proof -
      have j: "nat (int (length a + length m) - 1) = length a + Suc (length m')"
        using m by simp
      show ?thesis
        unfolding j by (simp add: m nth_append list_update_append)
    qed
    have "reverse_loop (int (length a)) (int (length a + length m) - 1) (a @ m @ b)
        = reverse_loop (int (length a) + 1) (int (length a + length m) - 1 - 1)
            ((a @ [y]) @ m' @ (x # b))"
      using lt by (subst reverse_loop.simps) (simp only: swap if_True)
    also have "\<dots> = reverse_loop (int (length (a @ [y])))
        (int (length (a @ [y]) + length m') - 1) ((a @ [y]) @ m' @ (x # b))"
      by (simp add: m add.commute)
    also have "\<dots> = (a @ [y]) @ rev m' @ (x # b)"
      using "1.IH" [rule_format, of m' "a @ [y]" "x # b"] m by simp
    finally show ?thesis
      by (simp add: m)
  qed
qed

lemma reverse_rev: "reverse s = rev s"
  using reverse_loop_rev [of "[]" s "[]"] by (simp add: reverse_def)

lemma itoa_decimal: "n < 2 ^ 31 \<Longrightarrow> itoa (int n) = Ok (decimal n)"
  by (simp add: itoa_def itoa_loop_decimal reverse_rev)

lemma boundaries_le_rows:
  fixes parent :: "('i::len word, 'v) CSR"
  assumes "valid_boundaries parent boundaries" and "j < length boundaries"
  shows "unat (boundaries ! j) \<le> unat (rows (m_metadata parent))"
proof -
  have "boundaries ! j \<le> boundaries ! (length boundaries - 1)"
    using assms by (intro sorted_nth_mono) (simp_all add: valid_boundaries_def)
  then have "boundaries ! j \<le> last boundaries"
    using assms by (simp add: last_conv_nth valid_boundaries_def)
  then show ?thesis
    using assms(1) by (simp add: word_le_nat_alt valid_boundaries_def)
qed

lemma partition_child_closed:
  fixes parent :: "('i::len word, 'v::len word) CSR"
  assumes vb: "valid_boundaries parent boundaries" and sf: "offsets_in_bounds parent"
    and j: "Suc j < length boundaries" and small: "j < 2 ^ 31"
  shows "partition_child parent boundaries (of_nat j) =
    Ok \<lparr>m_needsDealloc = False,
        m_metadata =
          \<lparr>rows = ucast (boundaries ! Suc j) - ucast (boundaries ! j),
           cols = cols (m_metadata parent),
           nz = ucast (m_indPtrs parent ! unat (boundaries ! Suc j))
                - ucast (m_indPtrs parent ! unat (boundaries ! j)),
           startingRow = ucast (boundaries ! j),
           startingCol = 0,
           bytesPerInd = bytesPerInd (m_metadata parent),
           bytesPerVal = bytesPerVal (m_metadata parent)\<rparr>,
        m_indPtrs = drop (unat (boundaries ! j)) (m_indPtrs parent),
        m_inds = drop (unat (m_indPtrs parent ! unat (boundaries ! j))) (m_inds parent),
        m_nzData = drop (unat (m_indPtrs parent ! unat (boundaries ! j))) (m_nzData parent),
        m_name = m_name parent @ ''-p'' @ decimal j\<rparr>"
proof -
  have uj: "unat (of_nat j :: uint) = j"
    using small by (intro unat_of_nat_small) simp
  have uj1: "unat (of_nat j + 1 :: uint) = Suc j"
    using small uj unat_Suc_no_wrap [of "of_nat j :: uint"] by simp
  have lo: "unat (boundaries ! j) \<le> unat (rows (m_metadata parent))"
    using vb j by (intro boundaries_le_rows) simp_all
  have hi: "unat (boundaries ! Suc j) \<le> unat (rows (m_metadata parent))"
    using vb j by (intro boundaries_le_rows) simp_all
  have r: "unat (rows (m_metadata parent)) < length (m_indPtrs parent)"
    using sf by (simp add: offsets_in_bounds_def)
  have off: "unat (m_indPtrs parent ! unat (boundaries ! j)) \<le> length (m_inds parent)"
    "unat (m_indPtrs parent ! unat (boundaries ! j)) \<le> length (m_nzData parent)"
    using sf lo by (simp_all add: offsets_in_bounds_def)
  have name: "itoa (sint (of_nat j :: uint)) = Ok (decimal j)"
    using small by (simp add: sint_of_nat_small itoa_decimal)
  show ?thesis
    using j lo hi r off
    by (simp add: partition_child_def uj uj1 name addr_of_def Let_def)
qed

lemma rowPartitionedView_loop_closed:
  assumes "unat i \<le> unat numPartitions"
    and "\<forall>j. unat i \<le> j \<and> j < unat numPartitions \<longrightarrow>
      partition_child parent boundaries (of_nat j) = Ok (f j)"
  shows "rowPartitionedView_loop parent boundaries numPartitions i res
    = Ok (res @ map f [unat i..<unat numPartitions])"
  using assms
proof (induction parent boundaries numPartitions i res rule: rowPartitionedView_loop.induct)
  case (1 parent boundaries numPartitions i res)
  show ?case
  proof (cases "i < numPartitions")
    case True
    then have lt: "unat i < unat numPartitions"
      by (simp add: word_less_nat_alt)
    have s: "unat (i + 1) = Suc (unat i)"
      using True by (rule unat_Suc_less)
    have c: "partition_child parent boundaries i = Ok (f (unat i))"
      using "1.prems"(2) [rule_format, of "unat i"] lt by simp
    have "rowPartitionedView_loop parent boundaries numPartitions i res
        = rowPartitionedView_loop parent boundaries numPartitions (i + 1) (res @ [f (unat i)])"
      using True by (subst rowPartitionedView_loop.simps) (simp add: c)
    also have "\<dots> = Ok ((res @ [f (unat i)]) @ map f [unat (i + 1)..<unat numPartitions])"
      using "1.prems" lt s by (intro "1.IH" [OF True c]) simp_all
    also have "\<dots> = Ok (res @ map f [unat i..<unat numPartitions])"
      using lt by (simp add: s upt_conv_Cons)
    finally show ?thesis .
  next
    case False
    with "1.prems"(1) have "unat i = unat numPartitions"
      by (simp add: word_less_nat_alt)
    with False show ?thesis
      by (subst rowPartitionedView_loop.simps) simp
  qed
qed

lemma numPartitions_size:
  assumes "boundaries \<noteq> []" and "length boundaries - 1 \<le> 2 ^ 31"
  shows "unat (of_nat (length boundaries) - 1 :: uint) = length boundaries - 1"
proof -
  have "1 \<le> length boundaries"
    using assms(1) by (cases boundaries) simp_all
  then have "(of_nat (length boundaries) - 1 :: uint) = of_nat (length boundaries - 1)"
    by (simp add: of_nat_diff)
  moreover have "length boundaries - 1 < 2 ^ LENGTH(32)"
    using assms(2) by simp
  ultimately show ?thesis
    by (simp only: unat_of_nat_small)
qed

lemma rowPartitionedView_closed:
  fixes parent :: "('i::len word, 'v::len word) CSR"
  assumes vb: "valid_boundaries parent boundaries" and sf: "offsets_in_bounds parent"
    and k: "length boundaries - 1 \<le> 2 ^ 31"
  shows "rowPartitionedView parent boundaries = Ok (map (\<lambda>j.
      \<lparr>m_needsDealloc = False,
       m_metadata =
         \<lparr>rows = ucast (boundaries ! Suc j) - ucast (boundaries ! j),
          cols = cols (m_metadata parent),
          nz = ucast (m_indPtrs parent ! unat (boundaries ! Suc j))
               - ucast (m_indPtrs parent ! unat (boundaries ! j)),
          startingRow = ucast (boundaries ! j),
          startingCol = 0,
          bytesPerInd = bytesPerInd (m_metadata parent),
          bytesPerVal = bytesPerVal (m_metadata parent)\<rparr>,
       m_indPtrs = drop (unat (boundaries ! j)) (m_indPtrs parent),
       m_inds = drop (unat (m_indPtrs parent ! unat (boundaries ! j))) (m_inds parent),
       m_nzData = drop (unat (m_indPtrs parent ! unat (boundaries ! j))) (m_nzData parent),
       m_name = m_name parent @ ''-p'' @ decimal j\<rparr>) [0..<length boundaries - 1])"
proof -
  define f where "f = (\<lambda>j.
      \<lparr>m_needsDealloc = False,
       m_metadata =
         \<lparr>rows = ucast (boundaries ! Suc j) - ucast (boundaries ! j) :: uint,
          cols = cols (m_metadata parent),
          nz = ucast (m_indPtrs parent ! unat (boundaries ! Suc j))
               - ucast (m_indPtrs parent ! unat (boundaries ! j)),
          startingRow = ucast (boundaries ! j),
          startingCol = 0,
          bytesPerInd = bytesPerInd (m_metadata parent),
          bytesPerVal = bytesPerVal (m_metadata parent)\<rparr>,
       m_indPtrs = drop (unat (boundaries ! j)) (m_indPtrs parent),
       m_inds = drop (unat (m_indPtrs parent ! unat (boundaries ! j))) (m_inds parent),
       m_nzData = drop (unat (m_indPtrs parent ! unat (boundaries ! j))) (m_nzData parent),
       m_name = m_name parent @ ''-p'' @ decimal j\<rparr>)"
  have ne: "boundaries \<noteq> []"
    using vb by (simp add: valid_boundaries_def)
  have np: "unat (of_nat (length boundaries) - 1 :: uint) = length boundaries - 1"
    using ne k by (rule numPartitions_size)
  have child: "partition_child parent boundaries (of_nat j) = Ok (f j)"
    if "j < length boundaries - 1" for j
  proof -
    have "Suc j < length boundaries" "j < 2 ^ 31"
      using that k by simp_all
    from partition_child_closed [OF vb sf this] show ?thesis
      by (simp add: f_def)
  qed
  have "rowPartitionedView_loop parent boundaries (of_nat (length boundaries) - 1) 0 []
      = Ok ([] @ map f [unat (0 :: uint)..<unat (of_nat (length boundaries) - 1 :: uint)])"
    by (intro rowPartitionedView_loop_closed) (simp_all add: np child)
  then show ?thesis
    by (simp add: rowPartitionedView_def np f_def)
qed

lemma dense3_valid:
  "valid_boundaries dense3 [0, 2, 3]" "offsets_in_bounds dense3"
  by code_simp+

lemma rowPartitionedView_loop_undefined:
  assumes "unat i \<le> j0" and "j0 < unat numPartitions"
    and "\<forall>j. unat i \<le> j \<and> j < j0 \<longrightarrow>
      (\<exists>c. partition_child parent boundaries (of_nat j) = Ok c)"
    and "partition_child parent boundaries (of_nat j0) = Undefined"
  shows "rowPartitionedView_loop parent boundaries numPartitions i res = Undefined"
  using assms
proof (induction "j0 - unat i" arbitrary: i res)
  case 0
  then have e: "unat i = j0"
    by simp
  then have lt: "i < numPartitions"
    using "0.prems"(2) by (simp add: word_less_nat_alt)
  have "partition_child parent boundaries i = Undefined"
    using "0.prems"(4) e by auto
  then show ?case
    using lt by (subst rowPartitionedView_loop.simps) simp
next
  case (Suc d)
  then have lt': "unat i < j0"
    by simp
  then have lt: "i < numPartitions"
    using Suc.prems(2) by (simp add: word_less_nat_alt)
  have s: "unat (i + 1) = Suc (unat i)"
    using lt by (rule unat_Suc_less)
  obtain c where c: "partition_child parent boundaries i = Ok c"
    using Suc.prems(3) [rule_format, of "unat i"] lt' by auto
  have "rowPartitionedView_loop parent boundaries numPartitions i res
      = rowPartitionedView_loop parent boundaries numPartitions (i + 1) (res @ [c])"
    using lt by (subst rowPartitionedView_loop.simps) (simp add: c)
  also have "\<dots> = Undefined"
    using Suc.prems Suc.hyps(2) lt' s by (intro Suc.hyps(1)) simp_all
  finally show ?case .
qed

text \<open>
  Claim C4, amended. Take a matrix on which the reads of \<open>rowPartitionedView\<close> stay inside
  the arrays (\<open>rows + 1\<close> index pointers, each an offset into \<open>inds\<close> and \<open>nzData\<close>) and
  boundaries \<open>b[0..k]\<close> that do not decrease, with \<open>b[0] = 0\<close>, \<open>b[k] = rows\<close> and
  \<open>k \<le> 2 ^ 31\<close>. Then \<open>rowPartitionedView(b)\<close> returns \<open>k\<close> children, and child \<open>i\<close> has
  \<open>rows = b[i+1] - b[i]\<close>, the parent's \<open>cols\<close>,
  \<open>nz = parent.indPtrs[b[i+1]] - parent.indPtrs[b[i]]\<close> (the difference as stored into an
  \<open>unsigned int\<close>, which is the difference of the two numbers when the second is not below
  the first and it is less than \<open>2 ^ 32\<close>), \<open>startingRow = b[i]\<close>, \<open>startingCol = 0\<close>, the
  parent's \<open>bytesPerInd\<close> and \<open>bytesPerVal\<close>; its \<open>indPtrs\<close> is the parent's from offset
  \<open>b[i]\<close> on, with the same values, its \<open>inds\<close> and \<open>nzData\<close> are the parent's from offset
  \<open>parent.indPtrs[b[i]]\<close> on, and its name is the parent's name, then \<open>-p\<close>, then \<open>i\<close> in
  decimal.
\<close>

theorem rowPartitionedView_children:
  fixes parent :: "('i::len word, 'v::len word) CSR"
  assumes vb: "valid_boundaries parent boundaries" and sf: "offsets_in_bounds parent"
    and k: "length boundaries - 1 \<le> 2 ^ 31"
  shows "\<exists>children. rowPartitionedView parent boundaries = Ok children
    \<and> length children = length boundaries - 1
    \<and> (\<forall>i < length boundaries - 1.
          unat (rows (m_metadata (children ! i)))
            = unat (boundaries ! (i + 1)) - unat (boundaries ! i)
        \<and> cols (m_metadata (children ! i)) = cols (m_metadata parent)
        \<and> nz (m_metadata (children ! i))
            = ucast (m_indPtrs parent ! unat (boundaries ! (i + 1)))
              - ucast (m_indPtrs parent ! unat (boundaries ! i))
        \<and> (m_indPtrs parent ! unat (boundaries ! i)
              \<le> m_indPtrs parent ! unat (boundaries ! (i + 1))
            \<and> unat (m_indPtrs parent ! unat (boundaries ! (i + 1)))
              - unat (m_indPtrs parent ! unat (boundaries ! i)) < 2 ^ 32 \<longrightarrow>
            unat (nz (m_metadata (children ! i)))
              = unat (m_indPtrs parent ! unat (boundaries ! (i + 1)))
                - unat (m_indPtrs parent ! unat (boundaries ! i)))
        \<and> unat (startingRow (m_metadata (children ! i))) = unat (boundaries ! i)
        \<and> startingCol (m_metadata (children ! i)) = 0
        \<and> bytesPerInd (m_metadata (children ! i)) = bytesPerInd (m_metadata parent)
        \<and> bytesPerVal (m_metadata (children ! i)) = bytesPerVal (m_metadata parent)
        \<and> m_indPtrs (children ! i) = drop (unat (boundaries ! i)) (m_indPtrs parent)
        \<and> m_inds (children ! i)
            = drop (unat (m_indPtrs parent ! unat (boundaries ! i))) (m_inds parent)
        \<and> m_nzData (children ! i)
            = drop (unat (m_indPtrs parent ! unat (boundaries ! i))) (m_nzData parent)
        \<and> m_name (children ! i) = m_name parent @ ''-p'' @ decimal i)"
proof -
  let ?children = "map (\<lambda>j.
      \<lparr>m_needsDealloc = False,
       m_metadata =
         \<lparr>rows = ucast (boundaries ! Suc j) - ucast (boundaries ! j),
          cols = cols (m_metadata parent),
          nz = ucast (m_indPtrs parent ! unat (boundaries ! Suc j))
               - ucast (m_indPtrs parent ! unat (boundaries ! j)),
          startingRow = ucast (boundaries ! j),
          startingCol = 0,
          bytesPerInd = bytesPerInd (m_metadata parent),
          bytesPerVal = bytesPerVal (m_metadata parent)\<rparr>,
       m_indPtrs = drop (unat (boundaries ! j)) (m_indPtrs parent),
       m_inds = drop (unat (m_indPtrs parent ! unat (boundaries ! j))) (m_inds parent),
       m_nzData = drop (unat (m_indPtrs parent ! unat (boundaries ! j))) (m_nzData parent),
       m_name = m_name parent @ ''-p'' @ decimal j\<rparr>) [0..<length boundaries - 1]"
  have e: "rowPartitionedView parent boundaries = Ok ?children"
    using vb sf k by (rule rowPartitionedView_closed)
  have srt: "sorted boundaries"
    using vb by (simp add: valid_boundaries_def)
  have rw: "unat (ucast (boundaries ! Suc i) - ucast (boundaries ! i) :: uint)
      = unat (boundaries ! Suc i) - unat (boundaries ! i)"
    and st: "unat (ucast (boundaries ! i) :: uint) = unat (boundaries ! i)"
    if i: "i < length boundaries - 1" for i
  proof -
    have le: "boundaries ! i \<le> boundaries ! Suc i"
      using srt i by (intro sorted_nth_mono) simp_all
    have "unat (boundaries ! Suc i) \<le> unat (rows (m_metadata parent))"
      using vb i by (intro boundaries_le_rows) simp_all
    moreover have "unat (rows (m_metadata parent)) < 2 ^ 32"
      using unsigned_less [of "rows (m_metadata parent)", where 'a = nat] by simp
    ultimately have b: "unat (boundaries ! Suc i) < 2 ^ 32"
      by linarith
    then have "unat (boundaries ! Suc i) - unat (boundaries ! i) < 2 ^ 32"
      by linarith
    with le show "unat (ucast (boundaries ! Suc i) - ucast (boundaries ! i) :: uint)
        = unat (boundaries ! Suc i) - unat (boundaries ! i)"
      by (rule ucast_diff_unat)
    have "unat (boundaries ! i) \<le> unat (boundaries ! Suc i)"
      using le by (simp add: word_le_nat_alt)
    with b have "unat (boundaries ! i) < 2 ^ LENGTH(32)"
      by simp
    then show "unat (ucast (boundaries ! i) :: uint) = unat (boundaries ! i)"
      by (rule unat_ucast_small)
  qed
  show ?thesis
    by (rule exI [of _ ?children]) (simp add: e rw st ucast_diff_unat)
qed

theorem rowPartitionedView_children_witness:
  "valid_boundaries dense3 [0, 2, 3] \<and> offsets_in_bounds dense3
   \<and> length [0, 2, 3 :: 32 word] - 1 \<le> 2 ^ 31
   \<and> (\<exists>children. rowPartitionedView dense3 [0, 2, 3] = Ok children \<and> length children = 2
         \<and> unat (rows (m_metadata (children ! 1))) = 1
         \<and> cols (m_metadata (children ! 1)) = 3
         \<and> unat (nz (m_metadata (children ! 1))) = 3
         \<and> unat (startingRow (m_metadata (children ! 1))) = 2
         \<and> startingCol (m_metadata (children ! 1)) = 0
         \<and> m_indPtrs (children ! 1) = [6, 9]
         \<and> m_inds (children ! 1) = [0, 1, 2]
         \<and> m_nzData (children ! 1) = [7, 8, 9]
         \<and> m_name (children ! 1) = ''dense-p1'')"
proof -
  have k: "length [0, 2, 3 :: 32 word] - 1 \<le> 2 ^ 31"
    by simp
  have d: "decimal (Suc 0) = ''1''"
    by code_simp
  from rowPartitionedView_children [OF dense3_valid k]
  obtain children where c: "rowPartitionedView dense3 [0, 2, 3] = Ok children"
    "length children = length [0, 2, 3 :: 32 word] - 1"
    and all: "\<forall>i < length [0, 2, 3 :: 32 word] - 1.
          unat (rows (m_metadata (children ! i)))
            = unat ([0, 2, 3 :: 32 word] ! (i + 1)) - unat ([0, 2, 3 :: 32 word] ! i)
        \<and> cols (m_metadata (children ! i)) = cols (m_metadata dense3)
        \<and> nz (m_metadata (children ! i))
            = ucast (m_indPtrs dense3 ! unat ([0, 2, 3 :: 32 word] ! (i + 1)))
              - ucast (m_indPtrs dense3 ! unat ([0, 2, 3 :: 32 word] ! i))
        \<and> (m_indPtrs dense3 ! unat ([0, 2, 3 :: 32 word] ! i)
              \<le> m_indPtrs dense3 ! unat ([0, 2, 3 :: 32 word] ! (i + 1))
            \<and> unat (m_indPtrs dense3 ! unat ([0, 2, 3 :: 32 word] ! (i + 1)))
              - unat (m_indPtrs dense3 ! unat ([0, 2, 3 :: 32 word] ! i)) < 2 ^ 32 \<longrightarrow>
            unat (nz (m_metadata (children ! i)))
              = unat (m_indPtrs dense3 ! unat ([0, 2, 3 :: 32 word] ! (i + 1)))
                - unat (m_indPtrs dense3 ! unat ([0, 2, 3 :: 32 word] ! i)))
        \<and> unat (startingRow (m_metadata (children ! i))) = unat ([0, 2, 3 :: 32 word] ! i)
        \<and> startingCol (m_metadata (children ! i)) = 0
        \<and> bytesPerInd (m_metadata (children ! i)) = bytesPerInd (m_metadata dense3)
        \<and> bytesPerVal (m_metadata (children ! i)) = bytesPerVal (m_metadata dense3)
        \<and> m_indPtrs (children ! i) = drop (unat ([0, 2, 3 :: 32 word] ! i)) (m_indPtrs dense3)
        \<and> m_inds (children ! i)
            = drop (unat (m_indPtrs dense3 ! unat ([0, 2, 3 :: 32 word] ! i))) (m_inds dense3)
        \<and> m_nzData (children ! i)
            = drop (unat (m_indPtrs dense3 ! unat ([0, 2, 3 :: 32 word] ! i))) (m_nzData dense3)
        \<and> m_name (children ! i) = m_name dense3 @ ''-p'' @ decimal i"
    by blast
  from all [rule_format, of 1] have
    "unat (rows (m_metadata (children ! 1))) = 1
     \<and> cols (m_metadata (children ! 1)) = 3
     \<and> unat (nz (m_metadata (children ! 1))) = 3
     \<and> unat (startingRow (m_metadata (children ! 1))) = 2
     \<and> startingCol (m_metadata (children ! 1)) = 0
     \<and> m_indPtrs (children ! 1) = [6, 9]
     \<and> m_inds (children ! 1) = [0, 1, 2]
     \<and> m_nzData (children ! 1) = [7, 8, 9]
     \<and> m_name (children ! 1) = ''dense-p1''"
    by (simp add: dense3_def d)
  with c dense3_valid k show ?thesis
    by auto
qed

text \<open>
  Counterexample to claim C4 as stated, for every matrix and every boundary sequence. It
  fails on the matrix
  \<open>eye(0)\<close> with \<open>2 ^ 31 + 2\<close> boundaries, all zero: \<open>itoa\<close> takes the \<open>unsigned int\<close> index
  as an \<open>int\<close>, at index \<open>2 ^ 31\<close> that is the least \<open>int\<close>, whose negation overflows, and
  no child is returned. It also fails on the second child of \<open>dense(3)\<close> for the boundaries
  \<open>[0, 2, 3]\<close>, a matrix that \<open>rowPartitionedView\<close> itself returns, with the boundaries
  \<open>[0, 1]\<close>: its index pointers \<open>[6, 9]\<close> are offsets past the three column indices its
  \<open>inds\<close> pointer can reach.
\<close>

theorem rowPartitionedView_int_index_counterexample:
  "valid_boundaries eye0 (replicate 2147483650 0) \<and> offsets_in_bounds eye0
   \<and> rowPartitionedView eye0 (replicate 2147483650 0) = Undefined
   \<and> valid_boundaries (dense3_children ! 1) [0, 1]
   \<and> rowPartitionedView (dense3_children ! 1) [0, 1] = Undefined"
proof -
  have view: "valid_boundaries (dense3_children ! 1) [0, 1]
      \<and> rowPartitionedView (dense3_children ! 1) [0, 1] = Undefined"
    by code_simp
  let ?bs = "replicate 2147483650 (0 :: 32 word)"
  have vb: "valid_boundaries eye0 ?bs"
    by (simp add: valid_boundaries_def eye0_def)
  have sf: "offsets_in_bounds eye0"
    by (simp add: offsets_in_bounds_def eye0_def)
  have np: "(of_nat (length ?bs) - 1 :: uint) = 2147483649"
    by simp
  have ok: "\<exists>c. partition_child eye0 ?bs (of_nat j) = Ok c" if "j < 2147483648" for j
  proof -
    have "Suc j < length ?bs" "j < 2 ^ 31"
      using that by simp_all
    from partition_child_closed [OF vb sf this] show ?thesis
      by blast
  qed
  have "sint (2147483648 :: uint) = - (2 ^ 31)"
    by simp
  then have "itoa (sint (2147483648 :: uint)) = Undefined"
    by (simp add: itoa_def)
  then have bad: "partition_child eye0 ?bs (of_nat 2147483648) = Undefined"
    by (simp add: partition_child_def eye0_def Let_def)
  have "rowPartitionedView_loop eye0 ?bs 2147483649 0 [] = Undefined"
    using ok bad by (intro rowPartitionedView_loop_undefined [where ?j0.0 = 2147483648]) simp_all
  with vb sf view show ?thesis
    by (simp add: rowPartitionedView_def)
qed

section \<open>The invariants of the matrices that are built\<close>

lemma eye_invariants:
  assumes e: "(eye md0 dim :: ('i::len word, 'v::len word) CSR outcome option) = Some (Ok m)"
  shows "csr_inv m \<and> owns_arrays m"
proof -
  let ?n = "unat dim"
  from eye_ok_bounds [OF e] have nov: "Suc ?n < 2 ^ 32" and fit: "?n < 2 ^ LENGTH('i)"
    by simp_all
  from e eye_closed [OF nov fit, of md0, where ?'v = 'v]
  have m: "m = \<lparr>m_needsDealloc = True,
      m_metadata = md0\<lparr>startingRow := 0, startingCol := 0, cols := dim, rows := dim, nz := dim\<rparr>,
      m_indPtrs = map of_nat [0..<Suc ?n], m_inds = map of_nat [0..<?n],
      m_nzData = replicate ?n 1, m_name = ''eye''\<rparr>"
    by simp
  have ip: "m_indPtrs m ! r = of_nat r" if "r \<le> ?n" for r
    using that unfolding m by (simp add: nth_append less_Suc_eq_le del: upt_Suc)
  have mono: "m_indPtrs m ! r \<le> m_indPtrs m ! (r + 1) \<and> m_indPtrs m ! (r + 1) \<le> m_indPtrs m ! ?n"
    if "r < ?n" for r
  proof -
    have a: "(of_nat r :: 'i word) \<le> of_nat (Suc r)"
      using that fit by (intro of_nat_mono_word) simp_all
    have b: "(of_nat (Suc r) :: 'i word) \<le> of_nat ?n"
      using that fit by (intro of_nat_mono_word) simp_all
    have ipr: "m_indPtrs m ! r = of_nat r" and ipr1: "m_indPtrs m ! (r + 1) = of_nat (Suc r)"
      and ipn: "m_indPtrs m ! ?n = of_nat ?n"
      using that ip [of r] ip [of "r + 1"] ip [of ?n] by simp_all
    show ?thesis
      by (simp only: ipr ipr1 ipn a b simp_thms)
  qed
  have col: "unat (m_inds m ! k) < ?n" if "k < ?n" for k
  proof -
    have "k < 2 ^ LENGTH('i)"
      using that fit by linarith
    then show ?thesis
      using that by (simp add: m unat_of_nat_small)
  qed
  have "unat (of_nat ?n :: 'i word) = ?n"
    using fit by (rule unat_of_nat_small)
  then have last: "unat (m_indPtrs m ! ?n) - unat (m_indPtrs m ! 0) = ?n"
    by (simp only: ip [of ?n] ip [of 0] le_refl le0) simp
  have md: "rows (m_metadata m) = dim" "cols (m_metadata m) = dim" "nz (m_metadata m) = dim"
    by (simp_all add: m)
  have len: "length (m_indPtrs m) = ?n + 1" "length (m_inds m) = ?n" "length (m_nzData m) = ?n"
    by (simp_all add: m)
  show ?thesis
    unfolding csr_inv_def csr_index_inv_def owns_arrays_def md len
    using mono col last by simp
qed

lemma dense_invariants:
  assumes nov: "unat dim * unat dim < 2 ^ 32"
    and e: "(dense md0 dim :: ('i::len word, 'v::len word) CSR outcome option) = Some (Ok m)"
  shows "csr_inv m \<and> owns_arrays m"
proof -
  let ?n = "unat dim"
  have sq: "unat (dim * dim) = ?n * ?n"
    using nov by (simp add: unat_mult_lem [THEN iffD1])
  from dense_ok_bounds [OF e] have fit1: "?n < 2 ^ LENGTH('i)" and fit: "?n * ?n < 2 ^ LENGTH('i)"
    by (simp_all add: sq)
  have s32: "Suc ?n < 2 ^ 32"
  proof (cases "?n \<le> 1")
    case True
    then have "Suc ?n \<le> 2"
      by simp
    then show ?thesis
      by simp
  next
    case False
    then have "2 * ?n \<le> ?n * ?n"
      by (intro mult_le_mono1) simp
    with False nov show ?thesis
      by linarith
  qed
  from e dense_closed [OF s32 fit1, of md0, where ?'v = 'v] fit
  have m: "m = \<lparr>m_needsDealloc = True,
      m_metadata = md0\<lparr>startingRow := 0, startingCol := 0, cols := dim, rows := dim,
                      nz := dim * dim\<rparr>,
      m_indPtrs = map (\<lambda>k. of_nat (k * ?n)) [0..<?n] @ [ucast (dim * dim)],
      m_inds = map (\<lambda>k. of_nat (k mod ?n)) [0..<?n * ?n],
      m_nzData = map (\<lambda>k. of_nat (Suc k)) [0..<?n * ?n], m_name = ''dense''\<rparr>"
    by (simp add: sq)
  have ip: "m_indPtrs m ! r = of_nat (r * ?n)" if "r \<le> ?n" for r
  proof (cases "r < ?n")
    case True
    then show ?thesis
      by (simp add: m nth_append)
  next
    case False
    with that have "r = ?n"
      by simp
    moreover have "ucast (dim * dim) = (of_nat (?n * ?n) :: 'i word)"
      by (simp add: sq [symmetric])
    ultimately show ?thesis
      by (simp add: m nth_append)
  qed
  have mono: "m_indPtrs m ! r \<le> m_indPtrs m ! (r + 1) \<and> m_indPtrs m ! (r + 1) \<le> m_indPtrs m ! ?n"
    if "r < ?n" for r
  proof -
    have le1: "r * ?n \<le> Suc r * ?n"
      by simp
    have le2: "Suc r * ?n \<le> ?n * ?n"
      using that by (intro mult_le_mono1) simp
    have lt: "Suc r * ?n < 2 ^ LENGTH('i)"
      using le2 fit by linarith
    have a: "(of_nat (r * ?n) :: 'i word) \<le> of_nat (Suc r * ?n)"
      using le1 lt by (rule of_nat_mono_word)
    have b: "(of_nat (Suc r * ?n) :: 'i word) \<le> of_nat (?n * ?n)"
      using le2 fit by (rule of_nat_mono_word)
    have ipr: "m_indPtrs m ! r = of_nat (r * ?n)"
      and ipr1: "m_indPtrs m ! (r + 1) = of_nat (Suc r * ?n)"
      and ipn: "m_indPtrs m ! ?n = of_nat (?n * ?n)"
      using that ip [of r] ip [of "r + 1"] ip [of ?n] by simp_all
    show ?thesis
      by (simp only: ipr ipr1 ipn a b simp_thms)
  qed
  have col: "unat (m_inds m ! k) < ?n" if "k < ?n * ?n" for k
  proof -
    have n0: "0 < ?n"
      using that by (cases "?n = 0") simp_all
    then have "k mod ?n < ?n"
      by simp
    moreover from this fit1 have "k mod ?n < 2 ^ LENGTH('i)"
      by linarith
    ultimately show ?thesis
      using that by (simp add: m unat_of_nat_small)
  qed
  have "unat (of_nat (?n * ?n) :: 'i word) = ?n * ?n"
    using fit by (rule unat_of_nat_small)
  then have last: "unat (m_indPtrs m ! ?n) - unat (m_indPtrs m ! 0) = ?n * ?n"
    by (simp only: ip [of ?n] ip [of 0] le_refl le0) simp
  have md: "rows (m_metadata m) = dim" "cols (m_metadata m) = dim"
    "unat (nz (m_metadata m)) = ?n * ?n"
    by (simp_all add: m sq)
  have len: "length (m_indPtrs m) = ?n + 1" "length (m_inds m) = ?n * ?n"
    "length (m_nzData m) = ?n * ?n"
    by (simp_all add: m)
  show ?thesis
    unfolding csr_inv_def csr_index_inv_def owns_arrays_def md len
    using mono col last by simp
qed

lemma genNZData_loop_length:
  "genNZData_loop nnz i a = Ok a' \<Longrightarrow> length a' = length a"
proof (induction nnz i a rule: genNZData_loop.induct)
  case (1 nnz i a)
  show ?case
  proof (cases "i < nnz \<and> unat i < length a")
    case True
    with "1.prems" have "genNZData_loop nnz (i + 1) (a[unat i := of_nat (unat i + 1)]) = Ok a'"
      by (subst (asm) genNZData_loop.simps) simp
    with True "1.IH" show ?thesis
      by simp
  next
    case False
    with "1.prems" show ?thesis
      by (subst (asm) genNZData_loop.simps) (auto split: if_splits)
  qed
qed

lemma buffer_of_Some:
  "meta_of b = Some md \<longleftrightarrow> b = Some (MetaBuf md)"
  "inds_of b = Some xs \<longleftrightarrow> b = Some (IndBuf xs)"
  "vals_of b = Some ys \<longleftrightarrow> b = Some (ValBuf ys)"
  by (auto simp: meta_of_def inds_of_def vals_of_def split: option.splits buffer.splits)

lemma load_invariants:
  fixes readMatrixData :: "('i::len word, 'v::len word) store"
  assumes st: "store_inv readMatrixData name genNZData"
    and l: "load readMatrixData name genNZData = Ok m"
  shows "csr_inv m"
proof -
  from st obtain md indPtrs inds where
    meta: "readMatrixData name ''meta'' = Some (MetaBuf md)"
    and ip: "readMatrixData name ''indptr'' = Some (IndBuf indPtrs)"
    and ins: "readMatrixData name ''inds'' = Some (IndBuf inds)"
    and inv: "csr_index_inv md indPtrs inds"
    and vals: "genNZData \<or> (\<exists>nzData. readMatrixData name ''nzdata'' = Some (ValBuf nzData)
      \<and> unat (nz md) \<le> length nzData)"
    unfolding store_inv_def by (auto simp: buffer_of_Some split: option.split_asm)
  show ?thesis
  proof (cases genNZData)
    case True
    with l obtain a where a: "genNZData_loop (ucast (nz md) :: 'i word) 0
        (new_array (unat (ucast (nz md) :: 'i word))) = Ok a"
      and m: "m = \<lparr>m_needsDealloc = True, m_metadata = md, m_indPtrs = indPtrs, m_inds = inds,
        m_nzData = a, m_name = name\<rparr>"
      by (auto simp: load_def meta ip ins Let_def split: if_splits outcome.splits)
    have "unat (nz md) \<le> unat (indPtrs ! unat (rows md))"
      using inv by (simp add: csr_index_inv_def)
    moreover have "unat (indPtrs ! unat (rows md)) < 2 ^ LENGTH('i)"
      by (rule unsigned_less)
    ultimately have "unat (nz md) < 2 ^ LENGTH('i)"
      by linarith
    then have "unat (ucast (nz md) :: 'i word) = unat (nz md)"
      by (rule unat_ucast_small)
    moreover have "length a = length (new_array (unat (ucast (nz md) :: 'i word)) :: 'v word list)"
      using a by (rule genNZData_loop_length)
    ultimately have "length a = unat (nz md)"
      by (simp add: new_array_def)
    with inv show ?thesis
      by (simp add: csr_inv_def m)
  next
    case False
    with vals obtain nzData where nzd: "readMatrixData name ''nzdata'' = Some (ValBuf nzData)"
      and len: "unat (nz md) \<le> length nzData"
      by auto
    from l False have "m = \<lparr>m_needsDealloc = True, m_metadata = md, m_indPtrs = indPtrs,
        m_inds = inds, m_nzData = nzData, m_name = name\<rparr>"
      by (auto simp: load_def meta ip ins nzd split: if_splits)
    with inv len show ?thesis
      by (simp add: csr_inv_def)
  qed
qed

lemma indPtrs_mono:
  fixes indPtrs :: "'i::len word list"
  assumes adj: "\<forall>r < n. indPtrs ! r \<le> indPtrs ! (r + 1)" and "a \<le> b" and "b \<le> n"
  shows "indPtrs ! a \<le> indPtrs ! b"
  using assms(2,3)
proof (induction b)
  case 0
  then show ?case
    by simp
next
  case (Suc b)
  show ?case
  proof (cases "a = Suc b")
    case True
    then show ?thesis
      by simp
  next
    case False
    with Suc.prems have "a \<le> b" "b < n"
      by simp_all
    then have "indPtrs ! a \<le> indPtrs ! b" "indPtrs ! b \<le> indPtrs ! (b + 1)"
      using Suc.IH adj by simp_all
    then show ?thesis
      by simp
  qed
qed

lemma child_invariants:
  fixes parent :: "('i::len word, 'v::len word) CSR"
  assumes inv: "csr_inv parent" and z: "unat (m_indPtrs parent ! 0) = 0"
    and vb: "valid_boundaries parent boundaries"
    and j: "j < of_nat (length boundaries) - 1"
    and c: "partition_child parent boundaries j = Ok child"
  shows "csr_inv child"
proof -
  let ?ip = "m_indPtrs parent"
  let ?n = "unat (rows (m_metadata parent))"
  let ?nz = "unat (nz (m_metadata parent))"
  have sj: "unat (j + 1) = Suc (unat j)"
    using j by (rule unat_Suc_less)
  from c have inb: "Suc (unat j) < length boundaries"
    by (auto simp: partition_child_def sj split: if_splits)
  define lo hi where "lo = boundaries ! unat j" and "hi = boundaries ! Suc (unat j)"
  define L H where "L = unat lo" and "H = unat hi"
  define off where "off = unat (?ip ! L)"
  from c inb have child: "child =
      \<lparr>m_needsDealloc = False,
       m_metadata =
         \<lparr>rows = ucast hi - ucast lo, cols = cols (m_metadata parent),
          nz = ucast (?ip ! H) - ucast (?ip ! L), startingRow = ucast lo, startingCol = 0,
          bytesPerInd = bytesPerInd (m_metadata parent),
          bytesPerVal = bytesPerVal (m_metadata parent)\<rparr>,
       m_indPtrs = drop L ?ip, m_inds = drop off (m_inds parent),
       m_nzData = drop off (m_nzData parent),
       m_name = m_name child\<rparr>"
    by (auto simp: partition_child_def sj Let_def addr_of_def lo_def hi_def L_def H_def off_def
        split: if_splits outcome.splits)
  have srt: "sorted boundaries"
    using vb by (simp add: valid_boundaries_def)
  have lohi: "lo \<le> hi"
    unfolding lo_def hi_def using srt inb by (intro sorted_nth_mono) simp_all
  then have LH: "L \<le> H"
    by (simp add: L_def H_def word_le_nat_alt)
  have Hn: "H \<le> ?n"
    unfolding H_def hi_def using vb inb by (intro boundaries_le_rows) simp_all
  have n32: "?n < 2 ^ 32"
    using unsigned_less [of "rows (m_metadata parent)", where 'a = nat] by simp
  from inv have len: "?n + 1 \<le> length ?ip" and leni: "?nz \<le> length (m_inds parent)"
    and lenv: "?nz \<le> length (m_nzData parent)"
    and adj: "\<forall>r < ?n. ?ip ! r \<le> ?ip ! (r + 1)"
    and cols: "\<forall>k < ?nz. unat (m_inds parent ! k) < unat (cols (m_metadata parent))"
    and nzeq: "?nz = unat (?ip ! ?n) - unat (?ip ! 0)"
    by (simp_all add: csr_inv_def csr_index_inv_def)
  have mono: "?ip ! a \<le> ?ip ! b" if "a \<le> b" "b \<le> ?n" for a b
    using adj that by (rule indPtrs_mono)
  have umono: "unat (?ip ! a) \<le> unat (?ip ! b)" if "a \<le> b" "b \<le> ?n" for a b
    using mono [OF that] by (simp add: word_le_nat_alt)
  have top: "unat (?ip ! ?n) = ?nz"
    using nzeq z by simp
  have nz32: "?nz < 2 ^ 32"
    using unsigned_less [of "nz (m_metadata parent)", where 'a = nat] by simp
  have Hnz: "unat (?ip ! H) \<le> ?nz"
    using umono [of H ?n] Hn top by simp
  have rows: "unat (ucast hi - ucast lo :: uint) = H - L"
    unfolding H_def L_def using lohi Hn n32 by (intro ucast_diff_unat) (simp_all add: H_def)
  have nzc: "unat (ucast (?ip ! H) - ucast (?ip ! L) :: uint) = unat (?ip ! H) - off"
    unfolding off_def using mono [OF LH Hn] Hnz nz32 by (intro ucast_diff_unat) simp_all
  have offH: "off \<le> unat (?ip ! H)"
    unfolding off_def using umono [OF LH Hn] .
  have nthip: "drop L ?ip ! r = ?ip ! (L + r)" if "r \<le> H - L" for r
    using that LH Hn len by (intro nth_drop) simp
  have a1: "H - L + 1 \<le> length (drop L ?ip)"
    using LH Hn len by simp
  have a2: "unat (?ip ! H) - off \<le> length (drop off (m_inds parent))"
    using Hnz leni offH by simp
  have a2': "unat (?ip ! H) - off \<le> length (drop off (m_nzData parent))"
    using Hnz lenv offH by simp
  have a3: "drop L ?ip ! r \<le> drop L ?ip ! (r + 1) \<and> drop L ?ip ! (r + 1) \<le> drop L ?ip ! (H - L)"
    if "r < H - L" for r
  proof -
    have "?ip ! (L + r) \<le> ?ip ! (L + (r + 1))" "?ip ! (L + (r + 1)) \<le> ?ip ! (L + (H - L))"
      using that LH Hn by (auto intro!: mono)
    moreover have "drop L ?ip ! r = ?ip ! (L + r)" "drop L ?ip ! (r + 1) = ?ip ! (L + (r + 1))"
      "drop L ?ip ! (H - L) = ?ip ! (L + (H - L))"
      using that by (simp_all only: nthip less_imp_le Suc_leI le_refl Suc_eq_plus1 [symmetric])
    ultimately show ?thesis
      by (simp only: simp_thms)
  qed
  have a4: "unat (drop off (m_inds parent) ! k) < unat (cols (m_metadata parent))"
    if "k < unat (?ip ! H) - off" for k
  proof -
    have "off + k < ?nz"
      using that Hnz by linarith
    moreover from this leni have "drop off (m_inds parent) ! k = m_inds parent ! (off + k)"
      by (intro nth_drop) simp
    ultimately show ?thesis
      using cols by simp
  qed
  have a5: "unat (?ip ! H) - off = unat (drop L ?ip ! (H - L)) - unat (drop L ?ip ! 0)"
    using LH by (simp add: nthip off_def)
  define cmd where "cmd =
         \<lparr>rows = ucast hi - ucast lo, cols = cols (m_metadata parent),
          nz = ucast (?ip ! H) - ucast (?ip ! L), startingRow = ucast lo, startingCol = 0,
          bytesPerInd = bytesPerInd (m_metadata parent),
          bytesPerVal = bytesPerVal (m_metadata parent)\<rparr>"
  have sel: "unat (rows cmd) = H - L" "unat (nz cmd) = unat (?ip ! H) - off"
    "cols cmd = cols (m_metadata parent)"
    by (simp_all add: cmd_def rows nzc)
  have "csr_index_inv cmd (drop L ?ip) (drop off (m_inds parent))"
    unfolding csr_index_inv_def sel using a1 a2 a3 a4 a5 by blast
  then have "csr_inv \<lparr>m_needsDealloc = False, m_metadata = cmd,
       m_indPtrs = drop L ?ip, m_inds = drop off (m_inds parent),
       m_nzData = drop off (m_nzData parent), m_name = m_name child\<rparr>"
    using a2' by (simp add: csr_inv_def sel)
  with child show ?thesis
    by (simp add: cmd_def)
qed

lemma dense3_loaded:
  "load (dense3_store (dense3_md 4 4)) ''dense3'' False
    = Ok (dense3\<lparr>m_metadata := dense3_md 4 4, m_name := ''dense3''\<rparr>)"
  by code_simp

lemma dense3_store_inv: "store_inv (dense3_store (dense3_md 4 4)) ''dense3'' False"
  by code_simp

lemma dense3_inv: "csr_inv dense3"
  by code_simp

lemma dense_65536_inv: "\<not> csr_inv
    \<lparr>m_needsDealloc = True,
     m_metadata = fresh_md\<lparr>startingRow := 0, startingCol := 0, cols := 65536, rows := 65536,
                          nz := 0\<rparr>,
     m_indPtrs = map (\<lambda>k. of_nat (k * unat (65536 :: uint))) [0..<unat (65536 :: uint)]
                 @ [0 :: 32 word],
     m_inds = [], m_nzData = ([] :: 32 word list), m_name = ''dense''\<rparr>"
proof
  let ?ip = "map (\<lambda>k. of_nat (k * unat (65536 :: uint))) [0..<unat (65536 :: uint)]
      @ [0 :: 32 word]"
  assume "csr_inv
    \<lparr>m_needsDealloc = True,
     m_metadata = fresh_md\<lparr>startingRow := 0, startingCol := 0, cols := 65536, rows := 65536,
                          nz := 0\<rparr>,
     m_indPtrs = ?ip, m_inds = [], m_nzData = ([] :: 32 word list), m_name = ''dense''\<rparr>"
  then have "\<forall>r < unat (65536 :: uint). ?ip ! r \<le> ?ip ! (r + 1)
      \<and> ?ip ! (r + 1) \<le> ?ip ! unat (65536 :: uint)"
    by (simp add: csr_inv_def csr_index_inv_def)
  then have "?ip ! (0 + 1) \<le> ?ip ! unat (65536 :: uint)"
    by simp
  moreover have "?ip ! (0 + 1) = 65536"
    by (simp add: nth_append)
  moreover have "?ip ! unat (65536 :: uint) = 0"
    by (simp add: nth_append)
  ultimately show False
    by simp
qed

text \<open>
  Claim C9, amended. A matrix returned by \<open>eye(dim)\<close>, by \<open>dense(dim)\<close> with
  \<open>dim * dim < 2 ^ 32\<close>, or by \<open>load\<close> from a store whose components satisfy the invariants,
  and a child that \<open>rowPartitionedView\<close> returns, for valid boundaries, from a matrix that
  satisfies the invariants and whose \<open>indPtrs[0]\<close> is 0, satisfies the invariants of
  section 3: \<open>rows + 1\<close> index pointers and \<open>nz\<close> column indices and values can be read from
  its arrays (the arrays of \<open>eye\<close> and \<open>dense\<close> have exactly these sizes),
  \<open>indPtrs[r] \<le> indPtrs[r+1] \<le> indPtrs[rows]\<close> for every row \<open>r\<close>, every stored column
  index is below \<open>cols\<close>, and \<open>nz = indPtrs[rows] - indPtrs[0]\<close>.
\<close>

theorem constructed_matrices_invariants:
  fixes m1 m2 m3 parent child :: "('i::len word, 'v::len word) CSR"
  shows "(eye md0 dim = Some (Ok m1) \<longrightarrow> csr_inv m1 \<and> owns_arrays m1)
    \<and> (unat dim * unat dim < 2 ^ 32 \<and> dense md0 dim = Some (Ok m2) \<longrightarrow>
          csr_inv m2 \<and> owns_arrays m2)
    \<and> (store_inv readMatrixData name genNZData
          \<and> load readMatrixData name genNZData = Ok m3 \<longrightarrow> csr_inv m3)
    \<and> (csr_inv parent \<and> unat (m_indPtrs parent ! 0) = 0
          \<and> valid_boundaries parent boundaries
          \<and> rowPartitionedView parent boundaries = Ok children \<and> child \<in> set children \<longrightarrow>
          csr_inv child)"
proof -
  have p1: "csr_inv m1 \<and> owns_arrays m1" if "eye md0 dim = Some (Ok m1)"
    using that by (rule eye_invariants)
  have p2: "csr_inv m2 \<and> owns_arrays m2"
    if "unat dim * unat dim < 2 ^ 32 \<and> dense md0 dim = Some (Ok m2)"
    using dense_invariants [of dim md0 m2] that by blast
  have p3: "csr_inv m3"
    if "store_inv readMatrixData name genNZData \<and> load readMatrixData name genNZData = Ok m3"
    using load_invariants [of readMatrixData name genNZData m3] that by blast
  have p4: "csr_inv child"
    if a: "csr_inv parent \<and> unat (m_indPtrs parent ! 0) = 0
      \<and> valid_boundaries parent boundaries
      \<and> rowPartitionedView parent boundaries = Ok children \<and> child \<in> set children"
  proof -
    from a obtain j where "j < of_nat (length boundaries) - 1"
      and "partition_child parent boundaries j = Ok child"
      unfolding rowPartitionedView_def by (auto dest: rowPartitionedView_loop_child_index)
    with a child_invariants [of parent boundaries j child] show ?thesis
      by blast
  qed
  from p1 p2 p3 p4 show ?thesis
    by blast
qed

theorem constructed_matrices_invariants_witness:
  "eye fresh_md 3 = Some (Ok eye3) \<and> csr_inv eye3 \<and> owns_arrays eye3
   \<and> unat (3 :: uint) * unat (3 :: uint) < 2 ^ 32 \<and> dense fresh_md 3 = Some (Ok dense3)
   \<and> csr_inv dense3 \<and> owns_arrays dense3
   \<and> store_inv (dense3_store (dense3_md 4 4)) ''dense3'' False
   \<and> load (dense3_store (dense3_md 4 4)) ''dense3'' False
       = Ok (dense3\<lparr>m_metadata := dense3_md 4 4, m_name := ''dense3''\<rparr>)
   \<and> csr_inv (dense3\<lparr>m_metadata := dense3_md 4 4, m_name := ''dense3''\<rparr>)
   \<and> unat (m_indPtrs dense3 ! 0) = 0 \<and> valid_boundaries dense3 [0, 2, 3]
   \<and> rowPartitionedView dense3 [0, 2, 3] = Ok dense3_children
   \<and> dense3_children ! 1 \<in> set dense3_children \<and> csr_inv (dense3_children ! 1)"
proof -
  note t = constructed_matrices_invariants [where ?md0.0 = fresh_md and dim = 3 and ?m1.0 = eye3
      and ?m2.0 = dense3 and readMatrixData = "dense3_store (dense3_md 4 4)"
      and name = "''dense3''" and genNZData = False
      and ?m3.0 = "dense3\<lparr>m_metadata := dense3_md 4 4, m_name := ''dense3''\<rparr>"
      and parent = dense3 and boundaries = "[0, 2, 3]" and children = dense3_children
      and child = "dense3_children ! 1"]
  have h2: "unat (3 :: uint) * unat (3 :: uint) < 2 ^ 32 \<and> dense fresh_md 3 = Some (Ok dense3)"
    by (simp add: dense_fresh_3)
  have h3: "store_inv (dense3_store (dense3_md 4 4)) ''dense3'' False
      \<and> load (dense3_store (dense3_md 4 4)) ''dense3'' False
        = Ok (dense3\<lparr>m_metadata := dense3_md 4 4, m_name := ''dense3''\<rparr>)"
    by (simp add: dense3_store_inv dense3_loaded)
  have z: "unat (m_indPtrs dense3 ! 0) = 0"
    by (simp add: dense3_def)
  have mem: "dense3_children ! 1 \<in> set dense3_children"
    by (simp add: dense3_children_def)
  have h4: "csr_inv dense3 \<and> unat (m_indPtrs dense3 ! 0) = 0
      \<and> valid_boundaries dense3 [0, 2, 3]
      \<and> rowPartitionedView dense3 [0, 2, 3] = Ok dense3_children
      \<and> dense3_children ! 1 \<in> set dense3_children"
    using dense3_inv z dense3_valid(1) dense3_view mem by simp
  have "csr_inv eye3 \<and> owns_arrays eye3"
    using t [THEN conjunct1, rule_format, OF eye_fresh_3] .
  moreover have "csr_inv dense3 \<and> owns_arrays dense3"
    using t [THEN conjunct2, THEN conjunct1, rule_format, OF h2] .
  moreover have "csr_inv (dense3\<lparr>m_metadata := dense3_md 4 4, m_name := ''dense3''\<rparr>)"
    using t [THEN conjunct2, THEN conjunct2, THEN conjunct1, rule_format, OF h3] .
  moreover have "csr_inv (dense3_children ! 1)"
    using t [THEN conjunct2, THEN conjunct2, THEN conjunct2, rule_format, OF h4] .
  ultimately show ?thesis
    using eye_fresh_3 h2 h3 h4 by simp
qed

text \<open>
  Counterexample to claim C9 as stated. It fails twice. \<open>dense(65536)\<close> returns a matrix with \<open>nz = 0\<close> whose index
  pointers rise to \<open>65535 * 65536\<close> and end with 0. And the second child of \<open>dense(3)\<close> for
  the boundaries \<open>[0, 1, 3]\<close> satisfies the invariants with index pointers \<open>[3, 6, 9]\<close>, but
  its own second child for the valid boundaries \<open>[0, 1, 2]\<close> has \<open>nz = 3\<close> and a pointer to
  the end of \<open>inds\<close>: the offsets of a child count from the start of the arrays of the
  matrix that owns them, not from the child's pointers.
\<close>

theorem invariants_counterexample:
  "map_option csr_inv (returned (dense fresh_md 65536 :: (32 word, 32 word) CSR outcome option))
     = Some False
   \<and> csr_inv (children_of (rowPartitionedView dense3 [0, 1, 3]) ! 1)
   \<and> valid_boundaries (children_of (rowPartitionedView dense3 [0, 1, 3]) ! 1) [0, 1, 2]
   \<and> length (children_of (rowPartitionedView
         (children_of (rowPartitionedView dense3 [0, 1, 3]) ! 1) [0, 1, 2])) = 2
   \<and> \<not> csr_inv (children_of (rowPartitionedView
         (children_of (rowPartitionedView dense3 [0, 1, 3]) ! 1) [0, 1, 2]) ! 1)"
proof -
  have "(65536 :: uint) * 65536 = 0" "Suc (unat (65536 :: uint)) < 2 ^ 32"
    "unat (65536 :: uint) < 2 ^ LENGTH(32)"
    by simp_all
  from dense_wrapped [OF this, of fresh_md, where ?'v = 32]
  have "map_option csr_inv
      (returned (dense fresh_md 65536 :: (32 word, 32 word) CSR outcome option)) = Some False"
    using dense_65536_inv by simp
  moreover have "csr_inv (children_of (rowPartitionedView dense3 [0, 1, 3]) ! 1)"
    by code_simp
  moreover have "valid_boundaries (children_of (rowPartitionedView dense3 [0, 1, 3]) ! 1)
      [0, 1, 2]"
    by code_simp
  moreover have "length (children_of (rowPartitionedView
      (children_of (rowPartitionedView dense3 [0, 1, 3]) ! 1) [0, 1, 2])) = 2"
    by code_simp
  moreover have "\<not> csr_inv (children_of (rowPartitionedView
      (children_of (rowPartitionedView dense3 [0, 1, 3]) ! 1) [0, 1, 2]) ! 1)"
    by code_simp
  ultimately show ?thesis
    by simp
qed

end
